theory Spec2Isabelle
  imports Complex_Main
begin

section \<open>Conventions of the embedding\<close>

text \<open>
  The program is \<^verbatim>\<open>QuantumAwesomeness.py\<close>. Python floats are modelled as
  \<^typ>\<open>real\<close>: arithmetic is exact, except where the rounding or the range of a
  double decides whether the program raises or which branch it takes; those places are
  written into the functions of the \<^verbatim>\<open>math\<close> module below. Python ints are
  \<^typ>\<open>int\<close>, lists are HOL lists, and every exception the modelled code can raise
  is a value of \<open>py_error\<close>, returned on the left of a sum.
\<close>

datatype py_error = ValueError | IndexError | KeyError | ZeroDivisionError | OverflowError

subsection \<open>The three functions of Python's \<^verbatim>\<open>math\<close> module the code calls\<close>

text \<open>
  \<^verbatim>\<open>math.sqrt\<close> raises \<^verbatim>\<open>ValueError: math domain error\<close> on a negative
  argument and returns the correctly rounded square root otherwise. Rounding matters
  just above 1: the one double strictly between 1 and \<open>1 + 2 / 2 ^ 52\<close> is
  \<open>1 + 1 / 2 ^ 52\<close>, and its square root rounds to \<open>1.0\<close>; from \<open>1 + 2 / 2 ^ 52\<close> on
  the rounded root exceeds 1, and up to 1 it does not. \<^verbatim>\<open>math.asin\<close> raises \<^verbatim>\<open>ValueError\<close> outside \<open>[-1, 1]\<close>.
\<close>

definition math_sqrt :: "real \<Rightarrow> py_error + real" where
  "math_sqrt x =
     (if x < 0 then Inl ValueError
      else if 1 < x \<and> x < 1 + 2 / 2 ^ 52 then Inr 1
      else Inr (sqrt x))"

definition math_asin :: "real \<Rightarrow> py_error + real" where
  "math_asin x = (if x < -1 \<or> 1 < x then Inl ValueError else Inr (arcsin x))"

text \<open>
  \<^verbatim>\<open>math.exp\<close> raises \<^verbatim>\<open>OverflowError: math range error\<close> where the result
  exceeds the largest double, which is for every double above \<open>exp_max\<close>
  (\<open>709.782712893384\<close>, the largest double whose exponential is finite), and returns
  \<open>0.0\<close> for every double up to \<open>exp_min\<close> (\<open>-745.1332191019412\<close>, the largest double
  whose exponential rounds to zero). Both bounds are written as the exact values of
  these doubles.
\<close>

definition exp_max :: real where
  "exp_max = 6243314768165359 / 8796093022208"

definition exp_min :: real where
  "exp_min = - (3277130554578985 / 4398046511104)"

definition math_exp :: "real \<Rightarrow> py_error + real" where
  "math_exp x =
     (if exp_max < x then Inl OverflowError
      else if x \<le> exp_min then Inr 0
      else Inr (exp x))"

section \<open>Probability-angle transform: \<^verbatim>\<open>calculateFrac\<close>, \<^verbatim>\<open>calculateFracDifference\<close>\<close>

text \<open>
  \<^verbatim>\<open>
  def calculateFrac ( oneProb ):
      frac = math.asin(math.sqrt( oneProb )) * 2 / math.pi
      return frac
  \<close>
\<close>

definition calculateFrac :: "real \<Rightarrow> py_error + real" where
  "calculateFrac oneProb =
     (case math_sqrt oneProb of
        Inl e \<Rightarrow> Inl e
      | Inr s \<Rightarrow>
          (case math_asin s of
             Inl e \<Rightarrow> Inl e
           | Inr a \<Rightarrow> Inr (a * 2 / pi)))"

text \<open>
  \<^verbatim>\<open>
  def calculateFracDifference (frac1, frac2):
      delta = max(frac1,frac2) - min(frac1,frac2)
      delta = min( delta, 1-delta )
      return delta
  \<close>
\<close>

definition calculateFracDifference :: "real \<Rightarrow> real \<Rightarrow> real" where
  "calculateFracDifference frac1 frac2 =
     (let delta = max frac1 frac2 - min frac1 frac2;
          delta = min delta (1 - delta)
      in delta)"

section \<open>Python lists and dictionaries\<close>

text \<open>
  Reading a list at an integer index: Python counts a negative index from the end and
  raises \<^verbatim>\<open>IndexError\<close> out of range. A dictionary is an association list in
  insertion order (the order \<^verbatim>\<open>keys()\<close> iterates in); a lookup of a missing key
  raises \<^verbatim>\<open>KeyError\<close>.
\<close>

definition list_item :: "'a list \<Rightarrow> int \<Rightarrow> py_error + 'a" where
  "list_item xs i =
     (let k = (if i < 0 then i + int (length xs) else i)
      in if k < 0 \<or> int (length xs) \<le> k then Inl IndexError else Inr (xs ! nat k))"

definition dict_item :: "('k \<times> 'v) list \<Rightarrow> 'k \<Rightarrow> py_error + 'v" where
  "dict_item d k = (case map_of d k of None \<Rightarrow> Inl KeyError | Some v \<Rightarrow> Inr v)"

definition dict_keys :: "('k \<times> 'v) list \<Rightarrow> 'k list" where
  "dict_keys d = map fst d"

text \<open>
  The \<^verbatim>\<open>pairs\<close> dictionary of a device layout: the name of a pair to the list
  \<^verbatim>\<open>[j, k]\<close> of its two qubits.
\<close>

type_synonym pairs_dict = "(string \<times> int list) list"

section \<open>Fuzz: \<^verbatim>\<open>calculateFuzz\<close>\<close>

text \<open>
  \<^verbatim>\<open>
  def calculateFuzz ( oneProb, pairs, matchingPairs ):
      fuzzAv = 0
      for p in matchingPairs:
          fuzzAv += abs( oneProb[pairs[p][0]] - oneProb[pairs[p][1]] )/len(matchingPairs)
      return fuzzAv
  \<close>
  The loop is \<open>fuzz_loop\<close>; its argument \<open>n\<close> is \<^verbatim>\<open>len(matchingPairs)\<close>, the
  divisor of every iteration, and a division by zero raises.
\<close>

fun fuzz_loop :: "real list \<Rightarrow> pairs_dict \<Rightarrow> nat \<Rightarrow> string list \<Rightarrow> real \<Rightarrow> py_error + real" where
  "fuzz_loop oneProb pairs n [] fuzzAv = Inr fuzzAv"
| "fuzz_loop oneProb pairs n (p # ps) fuzzAv =
     (case dict_item pairs p of
        Inl e \<Rightarrow> Inl e
      | Inr qs \<Rightarrow>
     (case list_item qs 0 of
        Inl e \<Rightarrow> Inl e
      | Inr a \<Rightarrow>
     (case list_item oneProb a of
        Inl e \<Rightarrow> Inl e
      | Inr pa \<Rightarrow>
     (case list_item qs 1 of
        Inl e \<Rightarrow> Inl e
      | Inr b \<Rightarrow>
     (case list_item oneProb b of
        Inl e \<Rightarrow> Inl e
      | Inr pb \<Rightarrow>
          if n = 0 then Inl ZeroDivisionError
          else fuzz_loop oneProb pairs n ps (fuzzAv + \<bar>pa - pb\<bar> / real n))))))"

definition calculateFuzz :: "real list \<Rightarrow> pairs_dict \<Rightarrow> string list \<Rightarrow> py_error + real" where
  "calculateFuzz oneProb pairs matchingPairs =
     fuzz_loop oneProb pairs (length matchingPairs) matchingPairs 0"

text \<open>
  The claim's words, for comparison with the code: the disagreement of one pair, the
  requirement that a pair indexes into \<open>oneProb\<close>, and the mean over the matching.
\<close>

definition pair_in_range :: "real list \<Rightarrow> pairs_dict \<Rightarrow> string \<Rightarrow> bool" where
  "pair_in_range oneProb pairs p =
     (case map_of pairs p of
        Some (a # b # rest) \<Rightarrow>
          0 \<le> a \<and> a < int (length oneProb) \<and> 0 \<le> b \<and> b < int (length oneProb)
      | _ \<Rightarrow> False)"

definition pair_disagreement :: "real list \<Rightarrow> pairs_dict \<Rightarrow> string \<Rightarrow> real" where
  "pair_disagreement oneProb pairs p =
     (case map_of pairs p of
        Some (a # b # rest) \<Rightarrow> \<bar>oneProb ! nat a - oneProb ! nat b\<bar>
      | _ \<Rightarrow> 0)"

definition mean_disagreement :: "real list \<Rightarrow> pairs_dict \<Rightarrow> string list \<Rightarrow> real" where
  "mean_disagreement oneProb pairs matching =
     sum_list (map (pair_disagreement oneProb pairs) matching) / real (length matching)"

section \<open>Calibration: the Metropolis search\<close>

text \<open>
  \<^verbatim>\<open>
  def Metropolis ( x, oneProbSamples, gateSamples, num, pairs, score,
                   steps=1000, repetitions=10, delta=0.025, T=0.01 ):
      best_x = copy.deepcopy(x)
      bestQuality = CalculateQuality ( x, oneProbSamples, gateSamples, pairs, score )
      bestDiff = 0
      for rep in range(repetitions):
          x = copy.deepcopy(best_x)
          quality = copy.deepcopy(bestQuality)
          for step in range(steps):
              n = random.randint(0,2*num-1)
              random_delta = random.uniform(+delta,-delta)
              x[n] += random_delta
              proposedQuality = CalculateQuality ( x, oneProbSamples, gateSamples, pairs, score )
              diff = 1*(proposedQuality[0]-quality[0]) + 2*(proposedQuality[1]-quality[1])
              accept = ( random.random() < math.exp(diff/T) )
              if accept:
                  quality = copy.deepcopy(proposedQuality)
              else:
                  x[n] -= random_delta
              if (quality[0]>bestQuality[0]):
                  best_x = copy.deepcopy(x)
                  bestQuality = copy.deepcopy(quality)
      return best_x
  \<close>
  The four variables the loops mutate are the fields of \<open>metro_state\<close> (\<open>cur_x\<close> is
  the variable \<^verbatim>\<open>x\<close>); a quality is the pair
  \<^verbatim>\<open>[fractionCorrect, closenessToIdeal]\<close>. The random source is explicit: one
  \<open>draw\<close> \<open>(n, random_delta, u)\<close> per step, \<open>u\<close> being the value of
  \<^verbatim>\<open>random.random()\<close>, and one list of draws per repetition. The objective
  \<^verbatim>\<open>CalculateQuality\<close> with its fixed sample arguments is a parameter of the model: a
  function of \<^verbatim>\<open>x\<close> that returns a quality or raises. Every copy in the source is a
  deep copy, so no two variables share a list. Storing at an index outside the list
  raises \<^verbatim>\<open>IndexError\<close>.
\<close>

definition list_modify :: "'a list \<Rightarrow> nat \<Rightarrow> ('a \<Rightarrow> 'a) \<Rightarrow> py_error + 'a list" where
  "list_modify xs n f = (if n < length xs then Inr (xs[n := f (xs ! n)]) else Inl IndexError)"

record metro_state =
  cur_x :: "real list"
  quality :: "real \<times> real"
  best_x :: "real list"
  bestQuality :: "real \<times> real"

type_synonym draw = "nat \<times> real \<times> real"

type_synonym quality_fn = "real list \<Rightarrow> py_error + real \<times> real"

definition proposal_diff :: "real \<times> real \<Rightarrow> real \<times> real \<Rightarrow> real" where
  "proposal_diff q pq = 1 * (fst pq - fst q) + 2 * (snd pq - snd q)"

text \<open>
  \<^verbatim>\<open>accept = ( random.random() < math.exp(diff/T) )\<close>, with \<open>u\<close> the value of
  \<^verbatim>\<open>random.random()\<close>. The division raises for \<open>T = 0\<close>, and \<^verbatim>\<open>math.exp\<close> raises
  above its range.
\<close>

definition accept_draw :: "real \<Rightarrow> real \<Rightarrow> real \<Rightarrow> py_error + bool" where
  "accept_draw T diff u =
     (if T = 0 then Inl ZeroDivisionError
      else (case math_exp (diff / T) of
              Inl e \<Rightarrow> Inl e
            | Inr bound \<Rightarrow> Inr (u < bound)))"

text \<open>The last \<^verbatim>\<open>if\<close> of the loop body: the best point is replaced on improvement.\<close>

definition keep_best :: "metro_state \<Rightarrow> metro_state" where
  "keep_best st =
     (if fst (quality st) > fst (bestQuality st)
      then st\<lparr>best_x := cur_x st, bestQuality := quality st\<rparr>
      else st)"

definition metropolis_step :: "quality_fn \<Rightarrow> real \<Rightarrow> draw \<Rightarrow> metro_state \<Rightarrow> py_error + metro_state" where
  "metropolis_step CalculateQuality T d st =
     (case d of (n, random_delta, u) \<Rightarrow>
     (case list_modify (cur_x st) n (\<lambda>v. v + random_delta) of
        Inl e \<Rightarrow> Inl e
      | Inr x1 \<Rightarrow>
     (case CalculateQuality x1 of
        Inl e \<Rightarrow> Inl e
      | Inr proposedQuality \<Rightarrow>
     (case accept_draw T (proposal_diff (quality st) proposedQuality) u of
        Inl e \<Rightarrow> Inl e
      | Inr accept \<Rightarrow>
          if accept
          then Inr (keep_best (st\<lparr>cur_x := x1, quality := proposedQuality\<rparr>))
          else (case list_modify x1 n (\<lambda>v. v - random_delta) of
                  Inl e \<Rightarrow> Inl e
                | Inr x2 \<Rightarrow> Inr (keep_best (st\<lparr>cur_x := x2\<rparr>))))))) "

fun metropolis_steps :: "quality_fn \<Rightarrow> real \<Rightarrow> draw list \<Rightarrow> metro_state \<Rightarrow> py_error + metro_state" where
  "metropolis_steps CalculateQuality T [] st = Inr st"
| "metropolis_steps CalculateQuality T (d # ds) st =
     (case metropolis_step CalculateQuality T d st of
        Inl e \<Rightarrow> Inl e
      | Inr st' \<Rightarrow> metropolis_steps CalculateQuality T ds st')"

text \<open>The head of the outer loop: a repetition starts from the best point.\<close>

definition restart_from_best :: "metro_state \<Rightarrow> metro_state" where
  "restart_from_best st = st\<lparr>cur_x := best_x st, quality := bestQuality st\<rparr>"

fun metropolis_repetitions ::
  "quality_fn \<Rightarrow> real \<Rightarrow> draw list list \<Rightarrow> metro_state \<Rightarrow> py_error + metro_state" where
  "metropolis_repetitions CalculateQuality T [] st = Inr st"
| "metropolis_repetitions CalculateQuality T (ds # dss) st =
     (case metropolis_steps CalculateQuality T ds (restart_from_best st) of
        Inl e \<Rightarrow> Inl e
      | Inr st' \<Rightarrow> metropolis_repetitions CalculateQuality T dss st')"

definition Metropolis :: "quality_fn \<Rightarrow> real \<Rightarrow> real list \<Rightarrow> draw list list \<Rightarrow> py_error + real list" where
  "Metropolis CalculateQuality T x0 dss =
     (case CalculateQuality x0 of
        Inl e \<Rightarrow> Inl e
      | Inr q0 \<Rightarrow>
     (case metropolis_repetitions CalculateQuality T dss
             \<lparr>cur_x = x0, quality = q0, best_x = x0, bestQuality = q0\<rparr> of
        Inl e \<Rightarrow> Inl e
      | Inr st \<Rightarrow> Inr (best_x st)))"

text \<open>
  The states the search passes through, in order: \<open>steps_trace\<close> lists the state after
  each step of one repetition, \<open>run_trace\<close> the state at the start of each repetition
  followed by the state after each of its steps, over the whole run. A run that raises
  ends its trace there.
\<close>

fun steps_trace :: "quality_fn \<Rightarrow> real \<Rightarrow> draw list \<Rightarrow> metro_state \<Rightarrow> metro_state list" where
  "steps_trace CalculateQuality T [] st = []"
| "steps_trace CalculateQuality T (d # ds) st =
     (case metropolis_step CalculateQuality T d st of
        Inl e \<Rightarrow> []
      | Inr st' \<Rightarrow> st' # steps_trace CalculateQuality T ds st')"

fun run_trace :: "quality_fn \<Rightarrow> real \<Rightarrow> draw list list \<Rightarrow> metro_state \<Rightarrow> metro_state list" where
  "run_trace CalculateQuality T [] st = []"
| "run_trace CalculateQuality T (ds # dss) st =
     restart_from_best st # steps_trace CalculateQuality T ds (restart_from_best st) @
     (case metropolis_steps CalculateQuality T ds (restart_from_best st) of
        Inl e \<Rightarrow> []
      | Inr st' \<Rightarrow> run_trace CalculateQuality T dss st')"

definition linked :: "quality_fn \<Rightarrow> real \<Rightarrow> metro_state \<Rightarrow> metro_state \<Rightarrow> bool" where
  "linked Q T s s' = ((\<exists>d. metropolis_step Q T d s = Inr s') \<or> s' = restart_from_best s)"

definition best_le :: "metro_state \<Rightarrow> metro_state \<Rightarrow> bool" where
  "best_le s s' = (fst (bestQuality s) \<le> fst (bestQuality s'))"

text \<open>A concrete state for the examples below.\<close>

definition example_state :: metro_state where
  "example_state = \<lparr>cur_x = [0], quality = (0, 0), best_x = [0], bestQuality = (0, 0)\<rparr>"

section \<open>The backend call of \<^verbatim>\<open>getResults\<close>\<close>

text \<open>
  \<^verbatim>\<open>
  if sdk=="QISKit":
      ...
      noResults = True
      while noResults:
          try: # try to run, and wait if it fails
              executedJob = engine.execute(["script"], backend=backend, shots=shots,
                                           max_credits = 5, wait=30, timeout=600)
              resultsVeryRaw = executedJob.get_counts("script")
              if ('status' not in resultsVeryRaw.keys()):
                  noResults = False
              else:
                  print(resultsVeryRaw)
                  print("This is not data, so we'll wait and try again")
                  time.sleep(300)
          except:
              print("Job failed. We'll wait and try again")
              time.sleep(600)
  ...
  elif sdk=="Forest":
      ...
      noResults = True
      while noResults:
          try: # try to run, and wait for 10 mins if it fails
              resultsVeryRaw = engine.run_and_measure(script, qubits_active, trials=shots)
              noResults = False
          except:
              print("Job failed. We'll wait and try again.")
              time.sleep(1800)
  \<close>
  The backend is the environment of the program: \<open>backend k\<close> is what its \<open>k\<close>-th call
  does, namely return counts, return a reply that has a \<^verbatim>\<open>'status'\<close> key, or raise.
  The loops carry the number of the next call and the seconds slept so far
  (\<^verbatim>\<open>time.sleep\<close>). Either loop may run forever, so it is a partial function: not
  returning is the value \<open>None\<close>. The bare \<^verbatim>\<open>except:\<close> catches every exception, so
  neither loop has a branch that raises. The \<^verbatim>\<open>ManualQISKit\<close> and \<^verbatim>\<open>ProjectQ\<close>
  branches ask once and have no \<^verbatim>\<open>try\<close>: an exception there propagates. The
  conversion of the raw result into \<^verbatim>\<open>resultsRaw\<close> is not modelled.
\<close>

datatype 'r reply = Counts 'r | Status 'r | Raised

datatype sdk = QISKit | ManualQISKit | ProjectQ | Forest

partial_function (option) qiskit_loop :: "(nat \<Rightarrow> 'r reply) \<Rightarrow> nat \<Rightarrow> nat \<Rightarrow> ('r \<times> nat) option" where
  "qiskit_loop backend k slept =
     (case backend k of
        Counts r \<Rightarrow> Some (r, slept)
      | Status r \<Rightarrow> qiskit_loop backend (k + 1) (slept + 300)
      | Raised \<Rightarrow> qiskit_loop backend (k + 1) (slept + 600))"

partial_function (option) forest_loop :: "(nat \<Rightarrow> 'r reply) \<Rightarrow> nat \<Rightarrow> nat \<Rightarrow> ('r \<times> nat) option" where
  "forest_loop backend k slept =
     (case backend k of
        Counts r \<Rightarrow> Some (r, slept)
      | Status r \<Rightarrow> Some (r, slept)
      | Raised \<Rightarrow> forest_loop backend (k + 1) (slept + 1800))"

datatype backend_error = BackendException

definition getResults :: "sdk \<Rightarrow> (nat \<Rightarrow> 'r reply) \<Rightarrow> ((backend_error + 'r) \<times> nat) option" where
  "getResults sdk backend =
     (case sdk of
        QISKit \<Rightarrow> map_option (\<lambda>(r, slept). (Inr r, slept)) (qiskit_loop backend 0 0)
      | Forest \<Rightarrow> map_option (\<lambda>(r, slept). (Inr r, slept)) (forest_loop backend 0 0)
      | _ \<Rightarrow>
          (case backend 0 of
             Counts r \<Rightarrow> Some (Inr r, 0)
           | Status r \<Rightarrow> Some (Inr r, 0)
           | Raised \<Rightarrow> Some (Inl BackendException, 0)))"

text \<open>The seconds a QISKit attempt makes the loop sleep, and whether a reply is data.\<close>

definition qiskit_wait :: "'r reply \<Rightarrow> nat" where
  "qiskit_wait rp = (case rp of Counts r \<Rightarrow> 0 | Status r \<Rightarrow> 300 | Raised \<Rightarrow> 600)"

definition is_counts :: "'r reply \<Rightarrow> bool" where
  "is_counts rp = (case rp of Counts r \<Rightarrow> True | _ \<Rightarrow> False)"

section \<open>The round engine: \<^verbatim>\<open>runGame\<close>\<close>


datatype axis = AxisX | AxisZ






text \<open>The assignment \<^verbatim>\<open>d[k] = v\<close> on a dictionary kept in insertion order.\<close>

definition dict_store :: "('k \<times> 'v) list \<Rightarrow> 'k \<Rightarrow> 'v \<Rightarrow> ('k \<times> 'v) list" where
  "dict_store d k v =
     (if k \<in> set (map fst d)
      then map (\<lambda>(k', v'). if k' = k then (k', v) else (k', v')) d
      else d @ [(k, v)])"














section \<open>The matching engine: \<^verbatim>\<open>getDisjointPairs\<close>\<close>

text \<open>
  \<^verbatim>\<open>
  def getDisjointPairs ( pairs, oneProb = [] ):
      weight = {}
      for p in pairs.keys():
          if oneProb:
              weight[p] = -calculateFracDifference( calculateFrac( oneProb[ pairs[p][0] ] ) ,
                                                    calculateFrac( oneProb[ pairs[p][1] ] ) )
          else:
              weight[p] = random.randint(0,100)
      edges = []
      for p in pairs.keys():
          edges.append( ( pairs[p][0], pairs[p][1], weight[p] ) )
      # match[j] = k means that edge j and k are matched
      match = mw.maxWeightMatching(edges, maxcardinality=True)
      # get a list of the pair names for each pair in the matching (not including fakes)
      matchingPairs = []
      for v in range(len(match)):
          for p in pairs.keys():
              if pairs[p]==[v,match[v]] and p[0:4]!='fake' :
                  matchingPairs.append(p)
      return matchingPairs
  \<close>
  The random source is explicit: \<open>rnd i\<close> is the value of the \<open>i\<close>-th call of
  \<^verbatim>\<open>random.randint(0,100)\<close>. The module \<^verbatim>\<open>mwmatching\<close> is not part of the source
  file: its function \<^verbatim>\<open>maxWeightMatching\<close> is a parameter of the model, a function
  from the list of edges to the list \<^verbatim>\<open>match\<close>.
\<close>

type_synonym edge = "int \<times> int \<times> real"

definition is_fake :: "string \<Rightarrow> bool" where
  "is_fake p = (take 4 p = ''fake'')"

text \<open>The first loop; \<open>i\<close> counts the calls of \<^verbatim>\<open>random.randint\<close>.\<close>

fun weight_loop ::
  "(nat \<Rightarrow> int) \<Rightarrow> real list \<Rightarrow> pairs_dict \<Rightarrow> nat \<Rightarrow> string list \<Rightarrow> (string \<times> real) list
     \<Rightarrow> py_error + (string \<times> real) list" where
  "weight_loop rnd oneProb pairs i [] weight = Inr weight"
| "weight_loop rnd oneProb pairs i (p # ps) weight =
     (if oneProb \<noteq> [] then
        (case dict_item pairs p of
           Inl e \<Rightarrow> Inl e
         | Inr qs \<Rightarrow>
        (case list_item qs 0 of
           Inl e \<Rightarrow> Inl e
         | Inr a \<Rightarrow>
        (case list_item oneProb a of
           Inl e \<Rightarrow> Inl e
         | Inr pa \<Rightarrow>
        (case calculateFrac pa of
           Inl e \<Rightarrow> Inl e
         | Inr frac1 \<Rightarrow>
        (case list_item qs 1 of
           Inl e \<Rightarrow> Inl e
         | Inr b \<Rightarrow>
        (case list_item oneProb b of
           Inl e \<Rightarrow> Inl e
         | Inr pb \<Rightarrow>
        (case calculateFrac pb of
           Inl e \<Rightarrow> Inl e
         | Inr frac2 \<Rightarrow>
             weight_loop rnd oneProb pairs (Suc i) ps
               (dict_store weight p (- calculateFracDifference frac1 frac2)))))))))
      else weight_loop rnd oneProb pairs (Suc i) ps (dict_store weight p (real_of_int (rnd i))))"

text \<open>The second loop.\<close>

fun edge_loop :: "pairs_dict \<Rightarrow> (string \<times> real) list \<Rightarrow> string list \<Rightarrow> py_error + edge list" where
  "edge_loop pairs weight [] = Inr []"
| "edge_loop pairs weight (p # ps) =
     (case dict_item pairs p of
        Inl e \<Rightarrow> Inl e
      | Inr qs \<Rightarrow>
     (case list_item qs 0 of
        Inl e \<Rightarrow> Inl e
      | Inr a \<Rightarrow>
     (case list_item qs 1 of
        Inl e \<Rightarrow> Inl e
      | Inr b \<Rightarrow>
     (case dict_item weight p of
        Inl e \<Rightarrow> Inl e
      | Inr w \<Rightarrow>
     (case edge_loop pairs weight ps of
        Inl e \<Rightarrow> Inl e
      | Inr edges \<Rightarrow> Inr ((a, b, w) # edges))))))"

definition layout_edges :: "(nat \<Rightarrow> int) \<Rightarrow> pairs_dict \<Rightarrow> real list \<Rightarrow> py_error + edge list" where
  "layout_edges rnd pairs oneProb =
     (case weight_loop rnd oneProb pairs 0 (dict_keys pairs) [] of
        Inl e \<Rightarrow> Inl e
      | Inr weight \<Rightarrow> edge_loop pairs weight (dict_keys pairs))"

text \<open>The last two nested loops, over \<^verbatim>\<open>range(len(match))\<close> and \<^verbatim>\<open>pairs.keys()\<close>.\<close>

definition matching_names :: "pairs_dict \<Rightarrow> int list \<Rightarrow> string list" where
  "matching_names pairs match =
     concat (map (\<lambda>v. filter (\<lambda>p. dict_item pairs p = Inr [int v, match ! v] \<and> \<not> is_fake p)
                          (dict_keys pairs))
                 [0..<length match])"

definition getDisjointPairs ::
  "(edge list \<Rightarrow> int list) \<Rightarrow> (nat \<Rightarrow> int) \<Rightarrow> pairs_dict \<Rightarrow> real list \<Rightarrow> py_error + string list" where
  "getDisjointPairs maxWeightMatching rnd pairs oneProb =
     (case layout_edges rnd pairs oneProb of
        Inl e \<Rightarrow> Inl e
      | Inr edges \<Rightarrow> Inr (matching_names pairs (maxWeightMatching edges)))"

subsection \<open>What \<^verbatim>\<open>maxWeightMatching\<close> returns\<close>

text \<open>
  Modelled from the spec: \<^verbatim>\<open>mw.maxWeightMatching\<close> (the module \<^verbatim>\<open>mwmatching\<close>) is
  missing from the sources. The spec says that it "runs exact maximum-weight matching on
  the graph whose vertices are qubits and whose edges are the candidate pairs", with the
  cardinality maximized, and the code's comment that \<^verbatim>\<open>match[j] = k\<close> means that
  \<open>j\<close> and \<open>k\<close> are matched. So: a matching is a selection of edges (a sublist of the
  edge list) in which no vertex occurs twice; the selection returned is one of the
  largest, and among the largest one of the heaviest (\<^verbatim>\<open>maxcardinality=True\<close>);
  \<^verbatim>\<open>match\<close> has an entry for every vertex of the graph, the partner of the vertex in
  the selection, or \<open>-1\<close> for a vertex no selected edge covers. All of this is executable
  on a concrete edge list.
\<close>

definition edge_ends :: "edge \<Rightarrow> int list" where
  "edge_ends e = (case e of (i, j, w) \<Rightarrow> [i, j])"

definition edge_weight :: "edge \<Rightarrow> real" where
  "edge_weight e = (case e of (i, j, w) \<Rightarrow> w)"

definition disjoint_edges :: "edge list \<Rightarrow> bool" where
  "disjoint_edges sel = distinct (concat (map edge_ends sel))"

definition matchings :: "edge list \<Rightarrow> edge list list" where
  "matchings edges = filter disjoint_edges (subseqs edges)"

definition optimal_matching :: "edge list \<Rightarrow> edge list \<Rightarrow> bool" where
  "optimal_matching edges sel =
     (sel \<in> set (matchings edges) \<and>
      (\<forall>m \<in> set (matchings edges).
          length m < length sel \<or>
          (length m = length sel \<and> sum_list (map edge_weight m) \<le> sum_list (map edge_weight sel))))"

definition mate_of :: "edge list \<Rightarrow> int \<Rightarrow> int" where
  "mate_of sel v =
     (case find (\<lambda>e. v \<in> set (edge_ends e)) sel of
        None \<Rightarrow> - 1
      | Some (i, j, w) \<Rightarrow> if i = v then j else i)"

definition maxWeightMatching_spec :: "edge list \<Rightarrow> int list \<Rightarrow> bool" where
  "maxWeightMatching_spec edges match =
     (\<exists>sel \<in> set (matchings edges).
        optimal_matching edges sel
      \<and> (\<forall>e \<in> set edges. \<forall>v \<in> set (edge_ends e). 0 \<le> v \<and> v < int (length match))
      \<and> (\<forall>v < length match. match ! v = mate_of sel (int v)))"

subsection \<open>Layouts and disjoint sets of pairs\<close>

text \<open>
  A layout as the spec's data model describes it: the names are the keys of a
  dictionary, every pair is a list of two qubit indices, which are not negative, and (a
  simple graph) no two pairs join the same two qubits. \<open>disjoint_pairs\<close> is the spec's
  disjointness of a set of pair names: no name twice, and no qubit in two of the pairs.
  \<open>complete_layout pairs k\<close>: the qubits are \<open>0, \<dots>, k - 1\<close> and every two of them are
  joined by a pair (full connectivity).
\<close>

definition simple_layout :: "pairs_dict \<Rightarrow> bool" where
  "simple_layout pairs =
     (distinct (dict_keys pairs)
      \<and> (\<forall>pq \<in> set pairs. length (snd pq) = 2 \<and> (\<forall>v \<in> set (snd pq). 0 \<le> v))
      \<and> (\<forall>pq \<in> set pairs. \<forall>pq' \<in> set pairs. set (snd pq) = set (snd pq') \<longrightarrow> pq = pq'))"

definition pair_qubits :: "pairs_dict \<Rightarrow> string \<Rightarrow> int list" where
  "pair_qubits pairs p = (case map_of pairs p of None \<Rightarrow> [] | Some qs \<Rightarrow> qs)"

definition disjoint_pairs :: "pairs_dict \<Rightarrow> string list \<Rightarrow> bool" where
  "disjoint_pairs pairs names =
     (distinct names \<and> set names \<subseteq> set (dict_keys pairs)
      \<and> distinct (concat (map (pair_qubits pairs) names)))"

definition complete_layout :: "pairs_dict \<Rightarrow> nat \<Rightarrow> bool" where
  "complete_layout pairs k =
     ((\<forall>pq \<in> set pairs. \<forall>v \<in> set (snd pq). v < int k)
      \<and> (\<forall>a < k. \<forall>b < k. a \<noteq> b \<longrightarrow> (\<exists>pq \<in> set pairs. set (snd pq) = {int a, int b})))"

text \<open>
  The pairs of the matching, the fake ones included: the two loops of \<open>matching_names\<close>
  without the test on the name. The list \<open>getDisjointPairs\<close> returns is compared with it.
\<close>

definition matched_pairs :: "pairs_dict \<Rightarrow> int list \<Rightarrow> string list" where
  "matched_pairs pairs match =
     concat (map (\<lambda>v. filter (\<lambda>p. dict_item pairs p = Inr [int v, match ! v]) (dict_keys pairs))
                 [0..<length match])"

text \<open>Three layouts for the examples below.\<close>

definition triangle_layout :: pairs_dict where
  "triangle_layout = [(''A'', [0, 1]), (''B'', [1, 2]), (''C'', [0, 2])]"

definition parallel_layout :: pairs_dict where
  "parallel_layout = [(''A'', [0, 1]), (''B'', [0, 1])]"

definition fake_layout :: pairs_dict where
  "fake_layout = [(''A'', [0, 1]), (''fake1'', [1, 2])]"

section \<open>Properties of the probability-angle transform\<close>

lemma calculateFrac_in_domain:
  assumes "0 \<le> p" and "p \<le> 1"
  shows "calculateFrac p = Inr (arcsin (sqrt p) * 2 / pi)"
proof -
  have "sqrt p \<le> 1" using assms by simp
  have "0 \<le> sqrt p" using assms by simp
  then have lo: "\<not> sqrt p < - 1" by linarith
  have dom: "\<not> p < 0" using assms by linarith
  show ?thesis
    using assms by (simp add: calculateFrac_def math_sqrt_def math_asin_def lo dom)
qed

lemma frac_value_bounds:
  assumes "0 \<le> p" and "p \<le> 1"
  shows "0 \<le> arcsin (sqrt p) * 2 / pi" and "arcsin (sqrt p) * 2 / pi \<le> 1"
proof -
  have s: "0 \<le> sqrt p" "sqrt p \<le> 1" using assms by simp_all
  have lo: "0 \<le> arcsin (sqrt p)" using s by (simp add: arcsin_nonneg)
  have "- 1 \<le> sqrt p" using s by linarith
  then have hi: "arcsin (sqrt p) \<le> pi / 2" using s by (intro arcsin_ubound)
  show "0 \<le> arcsin (sqrt p) * 2 / pi" using lo by simp
  have "arcsin (sqrt p) * 2 \<le> pi" using hi by linarith
  then show "arcsin (sqrt p) * 2 / pi \<le> 1" by (simp add: pos_divide_le_eq)
qed

lemma frac_value_mono:
  assumes "0 \<le> p" and "p \<le> q" and "q \<le> 1"
  shows "arcsin (sqrt p) * 2 / pi \<le> arcsin (sqrt q) * 2 / pi"
proof -
  have "sqrt p \<le> sqrt q" using assms by simp
  moreover have "- 1 \<le> sqrt p" using assms by (simp add: order_trans [of "- 1" 0])
  moreover have "sqrt q \<le> 1" using assms by simp
  ultimately have "arcsin (sqrt p) \<le> arcsin (sqrt q)" by (rule_tac arcsin_le_arcsin)
  then show ?thesis by (simp add: divide_right_mono)
qed

text \<open>
  Claim C2. For every \<open>p\<close> in \<open>[0,1]\<close>, \<open>calculateFrac p\<close> returns a value
  (raises nothing) that lies in \<open>[0,1]\<close>; on \<open>[0,1]\<close> it is monotonically
  non-decreasing in \<open>p\<close>; and \<open>calculateFrac 0 = 0\<close>, \<open>calculateFrac 1 = 1\<close>.
\<close>

theorem calculateFrac_range_mono:
  "(0 \<le> p \<and> p \<le> 1 \<longrightarrow> (\<exists>f. calculateFrac p = Inr f \<and> 0 \<le> f \<and> f \<le> 1))
   \<and> (0 \<le> p \<and> p \<le> q \<and> q \<le> 1 \<longrightarrow>
        (\<exists>f g. calculateFrac p = Inr f \<and> calculateFrac q = Inr g \<and> f \<le> g))
   \<and> calculateFrac 0 = Inr 0
   \<and> calculateFrac 1 = Inr 1"
proof (intro conjI impI)
  assume "0 \<le> p \<and> p \<le> 1"
  then show "\<exists>f. calculateFrac p = Inr f \<and> 0 \<le> f \<and> f \<le> 1"
    using calculateFrac_in_domain [of p] frac_value_bounds [of p] by simp
next
  assume h: "0 \<le> p \<and> p \<le> q \<and> q \<le> 1"
  then have "0 \<le> q" "p \<le> 1" by simp_all
  then show "\<exists>f g. calculateFrac p = Inr f \<and> calculateFrac q = Inr g \<and> f \<le> g"
    using h calculateFrac_in_domain [of p] calculateFrac_in_domain [of q]
      frac_value_mono [of p q] by simp
next
  show "calculateFrac 0 = Inr 0"
    using calculateFrac_in_domain [of 0] by simp
next
  show "calculateFrac 1 = Inr 1"
    using calculateFrac_in_domain [of 1] by simp
qed

theorem calculateFrac_range_mono_witness:
  "(\<exists>f. calculateFrac (1/4) = Inr f \<and> 0 \<le> f \<and> f \<le> 1)
   \<and> (\<exists>f g. calculateFrac (1/4) = Inr f \<and> calculateFrac (1/2) = Inr g \<and> f \<le> g)"
  using calculateFrac_range_mono [of "1/4" "1/2"] by simp

text \<open>
  Claim C3 (as amended). \<open>calculateFrac\<close> does not clamp. For \<open>p < 0\<close> it raises
  \<^verbatim>\<open>ValueError\<close> (from \<^verbatim>\<open>math.sqrt\<close>). For \<open>p\<close> in \<open>[0,1]\<close> it raises nothing and
  computes \<open>(2/\<pi>) \<sqdot> asin (sqrt p)\<close>. For \<open>p > 1\<close> it raises \<^verbatim>\<open>ValueError\<close> (from
  \<^verbatim>\<open>math.asin\<close>) as soon as the rounded square root exceeds 1, which is from
  \<open>1 + 2 / 2 ^ 52\<close> on; at the one double between, \<open>1 + 1 / 2 ^ 52\<close>, the square root
  rounds to \<open>1.0\<close> and the function returns \<open>1\<close>.
\<close>

theorem calculateFrac_partial:
  "calculateFrac p =
     (if p < 0 then Inl ValueError
      else if p \<le> 1 then Inr ((2 / pi) * arcsin (sqrt p))
      else if p < 1 + 2 / 2 ^ 52 then Inr 1
      else Inl ValueError)"
proof -
  consider (neg) "p < 0" | (dom) "0 \<le> p" "p \<le> 1" | (near) "1 < p" "p < 1 + 2 / 2 ^ 52"
    | (far) "1 + 2 / 2 ^ 52 \<le> p"
    by linarith
  then show ?thesis
  proof cases
    case neg
    then show ?thesis by (simp add: calculateFrac_def math_sqrt_def)
  next
    case dom
    then show ?thesis using calculateFrac_in_domain [of p] by simp
  next
    case near
    then have "\<not> p < 0" "\<not> p \<le> 1" by linarith+
    then show ?thesis using near by (simp add: calculateFrac_def math_sqrt_def math_asin_def)
  next
    case far
    have "(0::real) < 2 / 2 ^ 52" by simp
    then have one: "1 < p" using far by linarith
    then have root: "1 < sqrt p" by simp
    have "\<not> p < 0" "\<not> p \<le> 1" "\<not> p < 1 + 2 / 2 ^ 52" using one far by linarith+
    then show ?thesis
      using root by (simp add: calculateFrac_def math_sqrt_def math_asin_def)
  qed
qed

theorem calculateFrac_partial_witness:
  "calculateFrac (3/2) = Inl ValueError \<and> calculateFrac (1 + 1 / 2 ^ 52) = Inr 1"
  using calculateFrac_partial [of "3/2"] calculateFrac_partial [of "1 + 1 / 2 ^ 52"] by simp

text \<open>
  The claim as stated fails: at \<open>-1\<close> and at \<open>2\<close> the function raises instead of
  returning the clamped value (which would be 0, respectively 1).
\<close>

theorem calculateFrac_no_clamp_counterexample:
  "calculateFrac (- 1) = Inl ValueError \<and> calculateFrac 2 = Inl ValueError"
  by (simp add: calculateFrac_def math_sqrt_def math_asin_def)




section \<open>Properties of the fuzz\<close>

lemma fuzz_loop_sum:
  assumes "\<forall>p \<in> set ps. pair_in_range oneProb pairs p" and "0 < n"
  shows "fuzz_loop oneProb pairs n ps acc =
           Inr (acc + sum_list (map (pair_disagreement oneProb pairs) ps) / real n)"
  using assms
proof (induction ps arbitrary: acc)
  case Nil
  then show ?case by simp
next
  case (Cons p ps)
  from Cons.prems have "pair_in_range oneProb pairs p" by simp
  then obtain a b rest where
    look: "map_of pairs p = Some (a # b # rest)" and
    a: "0 \<le> a" "a < int (length oneProb)" and
    b: "0 \<le> b" "b < int (length oneProb)"
    by (auto simp: pair_in_range_def split: option.splits list.splits)
  have d: "pair_disagreement oneProb pairs p = \<bar>oneProb ! nat a - oneProb ! nat b\<bar>"
    by (simp add: pair_disagreement_def look)
  have ia: "list_item oneProb a = Inr (oneProb ! nat a)"
    using a by (simp add: list_item_def)
  have ib: "list_item oneProb b = Inr (oneProb ! nat b)"
    using b by (simp add: list_item_def)
  have q0: "list_item (a # b # rest) 0 = Inr a" by (simp add: list_item_def)
  have q1: "list_item (a # b # rest) 1 = Inr b" by (simp add: list_item_def)
  have rec: "fuzz_loop oneProb pairs n ps (acc + \<bar>oneProb ! nat a - oneProb ! nat b\<bar> / real n) =
      Inr (acc + \<bar>oneProb ! nat a - oneProb ! nat b\<bar> / real n
           + sum_list (map (pair_disagreement oneProb pairs) ps) / real n)"
    using Cons.IH Cons.prems by simp
  show ?case
    using Cons.prems(2)
    by (simp add: dict_item_def look q0 q1 ia ib rec d add_divide_distrib)
qed

text \<open>
  Claim C7. For a matching whose pairs index into \<open>oneProb\<close>, \<open>calculateFuzz\<close> returns
  the mean over the matching of \<open>|oneProb[a] - oneProb[b]|\<close>; for the empty matching it
  returns 0, and no input whatever makes it raise \<^verbatim>\<open>ZeroDivisionError\<close>.
\<close>

theorem calculateFuzz_mean:
  "((\<forall>p \<in> set matching. pair_in_range oneProb pairs p) \<longrightarrow>
      calculateFuzz oneProb pairs matching = Inr (mean_disagreement oneProb pairs matching))
   \<and> calculateFuzz oneProb pairs [] = Inr 0
   \<and> calculateFuzz oneProb' pairs' matching' \<noteq> Inl ZeroDivisionError"
proof (intro conjI impI)
  assume ok: "\<forall>p \<in> set matching. pair_in_range oneProb pairs p"
  show "calculateFuzz oneProb pairs matching = Inr (mean_disagreement oneProb pairs matching)"
  proof (cases matching)
    case Nil
    then show ?thesis by (simp add: calculateFuzz_def mean_disagreement_def)
  next
    case (Cons p ps)
    then have "0 < length matching" by simp
    then show ?thesis
      using fuzz_loop_sum [OF ok, of "length matching" 0]
      by (simp add: calculateFuzz_def mean_disagreement_def)
  qed
next
  show "calculateFuzz oneProb pairs [] = Inr 0" by (simp add: calculateFuzz_def)
next
  have "fuzz_loop oneProb' pairs' n ps acc \<noteq> Inl ZeroDivisionError" if "0 < n" for n ps acc
    using that
    by (induction ps arbitrary: acc)
       (auto simp: dict_item_def list_item_def Let_def split: option.splits sum.splits if_splits)
  note loop = this
  show "calculateFuzz oneProb' pairs' matching' \<noteq> Inl ZeroDivisionError"
  proof (cases "matching' = []")
    case True
    then show ?thesis by (simp add: calculateFuzz_def)
  next
    case False
    then have "0 < length matching'" by simp
    then show ?thesis unfolding calculateFuzz_def by (rule loop)
  qed
qed

theorem calculateFuzz_mean_witness:
  "calculateFuzz [1/2, 1/4, 1, 0] [(''A'', [0, 1]), (''B'', [2, 3])] [''A'', ''B''] = Inr (5/8)"
proof -
  have r: "\<forall>p \<in> set [''A'', ''B''].
      pair_in_range [1/2, 1/4, 1, 0::real] [(''A'', [0, 1]), (''B'', [2, 3])] p"
    by (simp add: pair_in_range_def)
  show ?thesis
    using r calculateFuzz_mean [of "[''A'', ''B'']" "[1/2, 1/4, 1, 0]"
        "[(''A'', [0, 1]), (''B'', [2, 3])]"]
    by (simp add: mean_disagreement_def pair_disagreement_def)
qed

section \<open>Properties of the Metropolis search\<close>

lemma list_modify_undo:
  assumes "list_modify xs n (\<lambda>v. v + d) = Inr x1"
  shows "list_modify x1 n (\<lambda>v. v - d) = Inr (xs :: real list)"
proof -
  from assms have n: "n < length xs" and x1: "x1 = xs[n := xs ! n + d]"
    by (auto simp: list_modify_def split: if_splits)
  have "x1[n := x1 ! n - d] = xs" using n by (simp add: x1)
  then show ?thesis using n by (simp add: list_modify_def x1)
qed

lemma list_modify_frame:
  assumes "list_modify xs n f = Inr ys"
  shows "length ys = length xs" and "i \<noteq> n \<Longrightarrow> ys ! i = xs ! i"
  using assms by (auto simp: list_modify_def split: if_splits)

lemma exp_minus_one_le_half: "exp (- 1 :: real) \<le> 1 / 2"
proof -
  have "(2::real) \<le> exp 1" using exp_ge_add_one_self [of "1::real"] by simp
  then have "1 / exp (1::real) \<le> 1 / 2" by (intro divide_left_mono) simp_all
  then show ?thesis by (simp add: exp_minus inverse_eq_divide)
qed

lemma exp_minus_19_le_half: "exp (- 19 :: real) \<le> 1 / 2"
proof -
  have "exp (- 19 :: real) \<le> exp (- 1)" by simp
  then show ?thesis using exp_minus_one_le_half by linarith
qed

lemma keep_best_props:
  "fst (bestQuality st) \<le> fst (bestQuality (keep_best st))"
  "fst (quality (keep_best st)) \<le> fst (bestQuality (keep_best st))"
  "cur_x (keep_best st) = cur_x st"
  "quality (keep_best st) = quality st"
  "(best_x (keep_best st) = best_x st \<and> bestQuality (keep_best st) = bestQuality st)
   \<or> (best_x (keep_best st) = cur_x st \<and> bestQuality (keep_best st) = quality st)"
  by (simp_all add: keep_best_def)

lemma math_exp_value:
  assumes "math_exp x = Inr e"
  shows "x \<le> exp_max" and "0 \<le> e" and "e \<le> exp x"
    and "e = exp x \<or> (x \<le> exp_min \<and> e = 0)"
  using assms by (auto simp: math_exp_def split: if_splits)


lemma accept_draw_Inr:
  assumes "accept_draw T d u = Inr b"
  shows "T \<noteq> 0" and "\<exists>e. math_exp (d / T) = Inr e \<and> b = (u < e)"
  using assms by (auto simp: accept_draw_def split: if_splits sum.splits)

lemma step_cases:
  assumes "metropolis_step Q T (n, rd, u) st = Inr st'"
  obtains x1 pq where
    "list_modify (cur_x st) n (\<lambda>v. v + rd) = Inr x1" "Q x1 = Inr pq"
    "accept_draw T (proposal_diff (quality st) pq) u = Inr True"
    "st' = keep_best (st\<lparr>cur_x := x1, quality := pq\<rparr>)"
  | x1 pq x2 where
    "list_modify (cur_x st) n (\<lambda>v. v + rd) = Inr x1" "Q x1 = Inr pq"
    "accept_draw T (proposal_diff (quality st) pq) u = Inr False"
    "list_modify x1 n (\<lambda>v. v - rd) = Inr x2"
    "st' = keep_best (st\<lparr>cur_x := x2\<rparr>)"
  using assms
  by (auto simp: metropolis_step_def split: sum.splits if_splits)

lemma step_best:
  assumes "metropolis_step Q T d st = Inr st'"
  shows "fst (bestQuality st) \<le> fst (bestQuality st')"
    and "fst (quality st') \<le> fst (bestQuality st')"
    and "(best_x st' = best_x st \<and> bestQuality st' = bestQuality st)
         \<or> (best_x st' = cur_x st' \<and> bestQuality st' = quality st')"
proof -
  obtain n rd u where d: "d = (n, rd, u)" by (cases d)
  from assms [unfolded d] obtain s1 where s1: "st' = keep_best s1" "bestQuality s1 = bestQuality st"
    "best_x s1 = best_x st"
    by (rule step_cases) simp_all
  show "fst (bestQuality st) \<le> fst (bestQuality st')"
    using keep_best_props(1) [of s1] s1 by simp
  show "fst (quality st') \<le> fst (bestQuality st')"
    using keep_best_props(2) [of s1] s1 by simp
  show "(best_x st' = best_x st \<and> bestQuality st' = bestQuality st)
         \<or> (best_x st' = cur_x st' \<and> bestQuality st' = quality st')"
    using keep_best_props(3,4,5) [of s1] s1 by auto
qed

lemma steps_last:
  "metropolis_steps Q T ds st = Inr st' \<Longrightarrow> st' = last (st # steps_trace Q T ds st)"
proof (induction ds arbitrary: st)
  case Nil
  then show ?case by simp
next
  case (Cons d ds)
  from Cons.prems obtain s1 where
    s1: "metropolis_step Q T d st = Inr s1" and rest: "metropolis_steps Q T ds s1 = Inr st'"
    by (auto split: sum.splits)
  have "st' = last (s1 # steps_trace Q T ds s1)" using rest by (rule Cons.IH)
  moreover have "steps_trace Q T (d # ds) st = s1 # steps_trace Q T ds s1" using s1 by simp
  ultimately show ?case by (simp del: last.simps add: last_ConsR)
qed

lemma steps_trace_linked:
  "successively (linked Q T) (st # steps_trace Q T ds st)"
proof (induction ds arbitrary: st)
  case Nil
  then show ?case by simp
next
  case (Cons d ds)
  show ?case
  proof (cases "metropolis_step Q T d st")
    case (Inl e)
    then show ?thesis by simp
  next
    case (Inr st')
    have "linked Q T st st'" unfolding linked_def using Inr by blast
    then show ?thesis using Cons.IH [of st'] Inr by simp
  qed
qed

lemma run_trace_linked:
  "successively (linked Q T) (run_trace Q T dss st)"
proof (induction dss arbitrary: st)
  case Nil
  then show ?case by simp
next
  case (Cons ds dss)
  let ?s0 = "restart_from_best st"
  have a: "successively (linked Q T) (?s0 # steps_trace Q T ds ?s0)"
    by (rule steps_trace_linked)
  show ?case
  proof (cases "metropolis_steps Q T ds ?s0")
    case (Inl e)
    then show ?thesis using a by simp
  next
    case (Inr st')
    have l: "st' = last (?s0 # steps_trace Q T ds ?s0)" using Inr by (rule steps_last)
    have b: "successively (linked Q T) (run_trace Q T dss st')" by (rule Cons.IH)
    have c: "run_trace Q T dss st' = [] \<or>
             linked Q T (last (?s0 # steps_trace Q T ds ?s0)) (hd (run_trace Q T dss st'))"
    proof (cases dss)
      case Nil
      then show ?thesis by simp
    next
      case (Cons es ess)
      then have "hd (run_trace Q T dss st') = restart_from_best st'" by simp
      then have "linked Q T st' (hd (run_trace Q T dss st'))" by (simp add: linked_def)
      then show ?thesis unfolding l by (rule disjI2)
    qed
    have "successively (linked Q T) ((?s0 # steps_trace Q T ds ?s0) @ run_trace Q T dss st')"
      unfolding successively_append_iff using a b c by blast
    then show ?thesis using Inr by simp
  qed
qed

lemma linked_props:
  assumes "linked Q T s s'"
  shows "best_le s s'"
    and "fst (quality s') \<le> fst (bestQuality s')"
    and "(best_x s' = best_x s \<and> bestQuality s' = bestQuality s)
         \<or> (best_x s' = cur_x s' \<and> bestQuality s' = quality s')"
  using assms step_best [of Q T _ s s']
  by (auto simp: linked_def best_le_def restart_from_best_def)

lemma run_trace_hd:
  "run_trace Q T dss st \<noteq> [] \<Longrightarrow> run_trace Q T dss st ! 0 = restart_from_best st"
  by (cases dss) simp_all

lemma run_trace_sorted: "sorted_wrt best_le (run_trace Q T dss st)"
proof -
  have "transp best_le" by (auto simp: transp_def best_le_def)
  moreover have "successively best_le (run_trace Q T dss st)"
    using run_trace_linked [of Q T dss st]
    by (rule successively_mono) (rule linked_props(1))
  ultimately show ?thesis by (simp add: successively_conv_sorted_wrt)
qed

lemma run_trace_inv:
  assumes "j < length (run_trace Q T dss st)"
  shows "fst (quality (run_trace Q T dss st ! j)) \<le> fst (bestQuality (run_trace Q T dss st ! j))"
proof (cases j)
  case 0
  then show ?thesis using assms run_trace_hd [of Q T dss st]
    by (auto simp: restart_from_best_def)
next
  case (Suc k)
  then have "linked Q T (run_trace Q T dss st ! k) (run_trace Q T dss st ! j)"
    using assms successively_nth [OF run_trace_linked, of k Q T dss st] by simp
  then show ?thesis by (rule linked_props(2))
qed

lemma run_trace_tracked:
  assumes "j < length (run_trace Q T dss st)"
  shows "\<exists>k\<le>j. best_x (run_trace Q T dss st ! j) = cur_x (run_trace Q T dss st ! k)
              \<and> bestQuality (run_trace Q T dss st ! j) = quality (run_trace Q T dss st ! k)"
  using assms
proof (induction j)
  case 0
  then show ?case using run_trace_hd [of Q T dss st]
    by (auto simp: restart_from_best_def)
next
  case (Suc j)
  let ?tr = "run_trace Q T dss st"
  have "linked Q T (?tr ! j) (?tr ! Suc j)"
    using Suc.prems successively_nth [OF run_trace_linked, of j Q T dss st] by simp
  then consider
    (same) "best_x (?tr ! Suc j) = best_x (?tr ! j)" "bestQuality (?tr ! Suc j) = bestQuality (?tr ! j)"
    | (new) "best_x (?tr ! Suc j) = cur_x (?tr ! Suc j)" "bestQuality (?tr ! Suc j) = quality (?tr ! Suc j)"
    using linked_props(3) by blast
  then show ?case
  proof cases
    case same
    from Suc.IH Suc.prems obtain k where "k \<le> j"
      "best_x (?tr ! j) = cur_x (?tr ! k)" "bestQuality (?tr ! j) = quality (?tr ! k)"
      by auto
    then show ?thesis using same by (intro exI [of _ k]) simp
  next
    case new
    then show ?thesis by (intro exI [of _ "Suc j"]) simp
  qed
qed

lemma repetitions_last:
  "metropolis_repetitions Q T dss st = Inr st' \<Longrightarrow> dss \<noteq> [] \<Longrightarrow>
     st' = last (run_trace Q T dss st)"
proof (induction dss arbitrary: st)
  case Nil
  then show ?case by simp
next
  case (Cons ds dss)
  from Cons.prems(1) obtain s1 where
    s1: "metropolis_steps Q T ds (restart_from_best st) = Inr s1" and
    rest: "metropolis_repetitions Q T dss s1 = Inr st'"
    by (auto split: sum.splits)
  show ?case
  proof (cases "dss = []")
    case True
    then have "st' = s1" using rest by simp
    then show ?thesis using steps_last [OF s1] s1 True by simp
  next
    case False
    then have "st' = last (run_trace Q T dss s1)" using rest Cons.IH by blast
    moreover have "run_trace Q T dss s1 \<noteq> []" using False by (cases dss) simp_all
    ultimately show ?thesis using s1 by simp
  qed
qed


lemma example_exp_facts:
  "math_exp (100 :: real) = Inr (exp 100)"
  "math_exp (- 1 :: real) = Inr (exp (- 1))"
  "math_exp (- 19 :: real) = Inr (exp (- 19))"
  "math_exp (1 :: real) = Inr (exp 1)"
  "math_exp (- (15 / 8) :: real) = Inr (exp (- (15 / 8)))"
  "math_exp (1024 :: real) = Inl OverflowError"
  by (simp_all add: math_exp_def exp_max_def exp_min_def)



text \<open>
  Claim C6 (as amended). Along the whole run (all repetitions and steps, in order), the
  retained best point is the best of the points the search has occupied so far (the
  starting point and the current point after each step), best meaning the highest
  \<^verbatim>\<open>fractionCorrect\<close>, the component \<^verbatim>\<open>quality[0]\<close>, which is the only one the code
  compares: at every moment \<open>j\<close>, \<open>bestQuality[0]\<close> is at least the \<open>quality[0]\<close> of the
  current point of every moment \<open>i \<le> j\<close>, and \<open>(best_x, bestQuality)\<close> is the point and
  quality the search had at some moment \<open>k \<le> j\<close>, not necessarily the last accepted
  one. The best-known \<open>bestQuality[0]\<close> never decreases, over the run and in particular
  from one step to the next within one repetition. What \<open>Metropolis\<close> returns is the
  \<open>best_x\<close> of the last moment. A proposal that is evaluated and rejected is not a
  candidate, and the closeness and the combined value of the retained point may fall.
\<close>

theorem metropolis_best_tracking:
  "(\<forall>j < length (run_trace Q T dss st). \<forall>i \<le> j.
       fst (quality (run_trace Q T dss st ! i)) \<le> fst (bestQuality (run_trace Q T dss st ! j))
     \<and> fst (bestQuality (run_trace Q T dss st ! i)) \<le> fst (bestQuality (run_trace Q T dss st ! j)))
   \<and> (\<forall>j < length (run_trace Q T dss st). \<exists>k \<le> j.
       best_x (run_trace Q T dss st ! j) = cur_x (run_trace Q T dss st ! k)
     \<and> bestQuality (run_trace Q T dss st ! j) = quality (run_trace Q T dss st ! k))
   \<and> (\<forall>i. Suc i < length (st # steps_trace Q T ds st) \<longrightarrow>
         fst (bestQuality ((st # steps_trace Q T ds st) ! i))
           \<le> fst (bestQuality ((st # steps_trace Q T ds st) ! Suc i)))
   \<and> (\<forall>q0 bx. Q x0 = Inr q0 \<and> dss \<noteq> [] \<and> Metropolis Q T x0 dss = Inr bx \<longrightarrow>
         bx = best_x (last (run_trace Q T dss
                \<lparr>cur_x = x0, quality = q0, best_x = x0, bestQuality = q0\<rparr>)))"
proof (intro conjI allI impI)
  fix j i
  let ?tr = "run_trace Q T dss st"
  assume j: "j < length ?tr" and i: "i \<le> j"
  have mono: "fst (bestQuality (?tr ! i)) \<le> fst (bestQuality (?tr ! j))"
  proof (cases "i = j")
    case True
    then show ?thesis by simp
  next
    case False
    then have "i < j" using i by simp
    then have "best_le (?tr ! i) (?tr ! j)"
      using run_trace_sorted [of Q T dss st] j by (simp add: sorted_wrt_iff_nth_less)
    then show ?thesis by (simp add: best_le_def)
  qed
  have "fst (quality (?tr ! i)) \<le> fst (bestQuality (?tr ! i))"
    using run_trace_inv [of i Q T dss st] i j by simp
  then show "fst (quality (?tr ! i)) \<le> fst (bestQuality (?tr ! j))" using mono by simp
  show "fst (bestQuality (?tr ! i)) \<le> fst (bestQuality (?tr ! j))" by (rule mono)
next
  fix j
  assume "j < length (run_trace Q T dss st)"
  then show "\<exists>k \<le> j.
       best_x (run_trace Q T dss st ! j) = cur_x (run_trace Q T dss st ! k)
     \<and> bestQuality (run_trace Q T dss st ! j) = quality (run_trace Q T dss st ! k)"
    by (rule run_trace_tracked)
next
  fix i
  assume i: "Suc i < length (st # steps_trace Q T ds st)"
  have "linked Q T ((st # steps_trace Q T ds st) ! i) ((st # steps_trace Q T ds st) ! Suc i)"
    using successively_nth [OF steps_trace_linked i] .
  then have "best_le ((st # steps_trace Q T ds st) ! i) ((st # steps_trace Q T ds st) ! Suc i)"
    by (rule linked_props(1))
  then show "fst (bestQuality ((st # steps_trace Q T ds st) ! i))
           \<le> fst (bestQuality ((st # steps_trace Q T ds st) ! Suc i))"
    by (simp add: best_le_def)
next
  fix q0 bx
  assume h: "Q x0 = Inr q0 \<and> dss \<noteq> [] \<and> Metropolis Q T x0 dss = Inr bx"
  then obtain st' where
    r: "metropolis_repetitions Q T dss
          \<lparr>cur_x = x0, quality = q0, best_x = x0, bestQuality = q0\<rparr> = Inr st'"
    and bx: "bx = best_x st'"
    by (auto simp: Metropolis_def split: sum.splits)
  have "st' = last (run_trace Q T dss \<lparr>cur_x = x0, quality = q0, best_x = x0, bestQuality = q0\<rparr>)"
    using r h by (intro repetitions_last) simp_all
  then show "bx = best_x (last (run_trace Q T dss
                \<lparr>cur_x = x0, quality = q0, best_x = x0, bestQuality = q0\<rparr>))"
    using bx by simp
qed

theorem metropolis_best_tracking_witness:
  "length (run_trace (\<lambda>x. Inr (x ! 0, 0)) 1 [[(0, 1, 0)]] example_state) = 2
   \<and> fst (quality (run_trace (\<lambda>x. Inr (x ! 0, 0)) 1 [[(0, 1, 0)]] example_state ! 0))
       \<le> fst (bestQuality (run_trace (\<lambda>x. Inr (x ! 0, 0)) 1 [[(0, 1, 0)]] example_state ! 1))
   \<and> bestQuality (run_trace (\<lambda>x. Inr (x ! 0, 0)) 1 [[(0, 1, 0)]] example_state ! 1) = (1, 0)
   \<and> best_x (run_trace (\<lambda>x. Inr (x ! 0, 0)) 1 [[(0, 1, 0)]] example_state ! 1) = [1]"
proof -
  have tr: "run_trace (\<lambda>x. Inr (x ! 0, 0)) 1 [[(0, 1, 0)]] example_state
      = [example_state, \<lparr>cur_x = [1], quality = (1, 0), best_x = [1], bestQuality = (1, 0)\<rparr>]"
    by (simp add: metropolis_step_def list_modify_def accept_draw_def proposal_diff_def
        keep_best_def restart_from_best_def example_state_def example_exp_facts)
  show ?thesis
    using metropolis_best_tracking [of "\<lambda>x. Inr (x ! 0, 0)" 1 "[[(0, 1, 0)]]" example_state
        "[]" "[0]"]
    unfolding tr by (simp add: example_state_def)
qed

text \<open>
  The claim as stated fails on both counts. A proposal with \<^verbatim>\<open>fractionCorrect\<close> 1 is
  evaluated and rejected, and the retained best stays at the point with
  \<^verbatim>\<open>fractionCorrect\<close> 0: the best point seen is not retained. And a step replaces the
  retained best \<open>(1/2, 1)\<close> by \<open>(5/8, 0)\<close>, whose combined value
  \<open>1 \<sqdot> fractionCorrect + 2 \<sqdot> closeness\<close> is \<open>5/8\<close> instead of \<open>5/2\<close>: the objective of the
  acceptance rule decreases.
\<close>

theorem metropolis_best_counterexample:
  "(\<lambda>x. Inr (x ! 0, - 10 * x ! 0) :: py_error + real \<times> real) [1] = Inr (1, - 10)
   \<and> metropolis_step (\<lambda>x. Inr (x ! 0, - 10 * x ! 0)) 1 (0, 1, 1/2) example_state
        = Inr example_state
   \<and> best_x example_state = [0] \<and> fst (bestQuality example_state) < 1
   \<and> metropolis_step (\<lambda>x. if x ! 0 = 0 then Inr (1/2, 1) else Inr (5/8, 0)) 1 (0, 1, 0)
          \<lparr>cur_x = [0], quality = (1/2, 1), best_x = [0], bestQuality = (1/2, 1)\<rparr>
        = Inr \<lparr>cur_x = [1], quality = (5/8, 0), best_x = [1], bestQuality = (5/8, 0)\<rparr>
   \<and> 1 * fst (5/8 :: real, 0 :: real) + 2 * snd (5/8 :: real, 0 :: real)
        < 1 * fst (1/2 :: real, 1 :: real) + 2 * snd (1/2 :: real, 1 :: real)"
proof -
  have rej: "\<not> (1::real) < exp (- 19) * 2" using exp_minus_19_le_half by linarith
  have a: "metropolis_step (\<lambda>x. Inr (x ! 0, - 10 * x ! 0)) 1 (0, 1, 1/2) example_state
        = Inr example_state"
    by (simp add: metropolis_step_def list_modify_def accept_draw_def proposal_diff_def
        example_state_def example_exp_facts rej keep_best_def)
  have b: "metropolis_step (\<lambda>x. if x ! 0 = 0 then Inr (1/2, 1) else Inr (5/8, 0)) 1 (0, 1, 0)
          \<lparr>cur_x = [0], quality = (1/2, 1), best_x = [0], bestQuality = (1/2, 1)\<rparr>
        = Inr \<lparr>cur_x = [1], quality = (5/8, 0), best_x = [1], bestQuality = (5/8, 0)\<rparr>"
    by (simp add: metropolis_step_def list_modify_def accept_draw_def proposal_diff_def
        example_exp_facts keep_best_def)
  show ?thesis using a b by (simp add: example_state_def)
qed

text \<open>
  Claim C10. A proposal step that completes leaves the length of \<^verbatim>\<open>x\<close> and every
  coordinate other than the chosen \<open>n\<close> unchanged; when the proposal is rejected, the
  subtraction of the same \<open>random_delta\<close> restores coordinate \<open>n\<close> too (in exact
  arithmetic), so the whole vector equals the vector before the step. Rejected: the draw
  is not below \<open>exp (diff / T)\<close>; or, which covers the underflow of \<^verbatim>\<open>math.exp\<close> as well,
  the test of the draw against the value of \<^verbatim>\<open>math.exp\<close> is false.
\<close>

theorem metropolis_step_frame:
  assumes "metropolis_step CalculateQuality T (n, rd, u) st = Inr st'"
  shows "length (cur_x st') = length (cur_x st)
       \<and> (\<forall>i. i \<noteq> n \<longrightarrow> cur_x st' ! i = cur_x st ! i)
       \<and> (\<forall>x1 pq. list_modify (cur_x st) n (\<lambda>v. v + rd) = Inr x1
                   \<and> CalculateQuality x1 = Inr pq
                   \<and> \<not> u < exp (proposal_diff (quality st) pq / T)
                 \<longrightarrow> cur_x st' = cur_x st)
       \<and> (\<forall>x1 pq. list_modify (cur_x st) n (\<lambda>v. v + rd) = Inr x1
                   \<and> CalculateQuality x1 = Inr pq
                   \<and> accept_draw T (proposal_diff (quality st) pq) u = Inr False
                 \<longrightarrow> cur_x st' = cur_x st)"
  using assms
proof (cases rule: step_cases)
  case (1 x1 pq)
  obtain e where e: "math_exp (proposal_diff (quality st) pq / T) = Inr e" "u < e"
    using accept_draw_Inr(2) [OF 1(3)] by auto
  have acc: "u < exp (proposal_diff (quality st) pq / T)"
    using e(2) math_exp_value(3) [OF e(1)] by linarith
  show ?thesis
    using 1 acc list_modify_frame [of "cur_x st" n "\<lambda>v. v + rd" x1]
    by (auto simp: keep_best_props)
next
  case (2 x1 pq x2)
  have "x2 = cur_x st" using list_modify_undo [OF 2(1)] 2(4) by simp
  then show ?thesis using 2 by (simp add: keep_best_props)
qed

theorem metropolis_step_frame_witness:
  "metropolis_step (\<lambda>x. Inr (- (x ! 0), 0)) 1 (0, 1, 1/2)
       \<lparr>cur_x = [0, 7], quality = (0, 0), best_x = [0, 7], bestQuality = (0, 0)\<rparr>
     = Inr \<lparr>cur_x = [0, 7], quality = (0, 0), best_x = [0, 7], bestQuality = (0, 0)\<rparr>
   \<and> length (cur_x \<lparr>cur_x = [0, 7], quality = (0, 0), best_x = [0, 7], bestQuality = (0, 0)\<rparr>) = 2"
proof -
  have rej: "\<not> (1::real) < exp (- 1) * 2" using exp_minus_one_le_half by linarith
  have s: "metropolis_step (\<lambda>x. Inr (- (x ! 0), 0)) 1 (0, 1, 1/2)
       \<lparr>cur_x = [0, 7], quality = (0, 0), best_x = [0, 7], bestQuality = (0, 0)\<rparr>
     = Inr \<lparr>cur_x = [0, 7], quality = (0, 0), best_x = [0, 7], bestQuality = (0, 0)\<rparr>"
    by (simp add: metropolis_step_def list_modify_def accept_draw_def proposal_diff_def
        keep_best_def rej example_exp_facts)
  show ?thesis using metropolis_step_frame [OF s] s by simp
qed

section \<open>Properties of the backend call\<close>

lemma qiskit_loop_returns_counts:
  "qiskit_loop backend k slept = Some y \<Longrightarrow> \<exists>n. is_counts (backend (k + n))"
proof (erule qiskit_loop.raw_induct [rotated], goal_cases)
  case (1 f backend k slept y)
  show ?case
  proof (cases "backend k")
    case (Counts r)
    then have "is_counts (backend (k + 0))" by (simp add: is_counts_def)
    then show ?thesis by blast
  next
    case (Status r)
    with 1(2) have "f backend (k + 1) (slept + 300) = Some y" by simp
    then obtain n where "is_counts (backend (k + 1 + n))" using 1(1) by blast
    then have "is_counts (backend (k + Suc n))" by simp
    then show ?thesis by blast
  next
    case Raised
    with 1(2) have "f backend (k + 1) (slept + 600) = Some y" by simp
    then obtain n where "is_counts (backend (k + 1 + n))" using 1(1) by blast
    then have "is_counts (backend (k + Suc n))" by simp
    then show ?thesis by blast
  qed
qed

lemma qiskit_loop_first_counts:
  assumes "\<forall>i<n. \<not> is_counts (backend (k + i))" and "backend (k + n) = Counts r"
  shows "qiskit_loop backend k slept = Some (r, slept + (\<Sum>i<n. qiskit_wait (backend (k + i))))"
  using assms
proof (induction n arbitrary: k slept)
  case 0
  then show ?case by (simp add: qiskit_loop.simps)
next
  case (Suc n)
  have first: "\<not> is_counts (backend k)" using Suc.prems(1) by force
  have rest: "\<forall>i<n. \<not> is_counts (backend (Suc k + i))" using Suc.prems(1) by force
  have final: "backend (Suc k + n) = Counts r" using Suc.prems(2) by simp
  have shift: "(\<Sum>i<Suc n. qiskit_wait (backend (k + i)))
      = qiskit_wait (backend k) + (\<Sum>i<n. qiskit_wait (backend (Suc k + i)))"
    using sum.lessThan_Suc_shift [of "\<lambda>i. qiskit_wait (backend (k + i))" n] by simp
  note IH = Suc.IH [OF rest final]
  show ?case
  proof (cases "backend k")
    case (Counts r')
    then show ?thesis using first by (simp add: is_counts_def)
  next
    case (Status r')
    have w: "qiskit_wait (backend k) = 300" using Status by (simp add: qiskit_wait_def)
    have "qiskit_loop backend k slept = qiskit_loop backend (Suc k) (slept + 300)"
      by (subst qiskit_loop.simps) (simp add: Status)
    also have "\<dots> = Some (r, slept + 300 + (\<Sum>i<n. qiskit_wait (backend (Suc k + i))))"
      by (rule IH)
    finally show ?thesis by (simp only: shift w add.assoc)
  next
    case Raised
    have w: "qiskit_wait (backend k) = 600" using Raised by (simp add: qiskit_wait_def)
    have "qiskit_loop backend k slept = qiskit_loop backend (Suc k) (slept + 600)"
      by (subst qiskit_loop.simps) (simp add: Raised)
    also have "\<dots> = Some (r, slept + 600 + (\<Sum>i<n. qiskit_wait (backend (Suc k + i))))"
      by (rule IH)
    finally show ?thesis by (simp only: shift w add.assoc)
  qed
qed


lemma forest_loop_returns_reply:
  "forest_loop backend k slept = Some y \<Longrightarrow> \<exists>n. backend (k + n) \<noteq> Raised"
proof (erule forest_loop.raw_induct [rotated], goal_cases)
  case (1 f backend k slept y)
  show ?case
  proof (cases "backend k = Raised")
    case False
    then have "backend (k + 0) \<noteq> Raised" by simp
    then show ?thesis by blast
  next
    case True
    with 1(2) have "f backend (k + 1) (slept + 1800) = Some y" by simp
    then obtain n where "backend (k + 1 + n) \<noteq> Raised" using 1(1) by blast
    then have "backend (k + Suc n) \<noteq> Raised" by simp
    then show ?thesis by blast
  qed
qed

lemma forest_loop_first_reply:
  assumes "\<forall>i<n. backend (k + i) = Raised"
      and "backend (k + n) = Counts r \<or> backend (k + n) = Status r"
  shows "forest_loop backend k slept = Some (r, slept + 1800 * n)"
  using assms
proof (induction n arbitrary: k slept)
  case 0
  then show ?case by (auto simp: forest_loop.simps)
next
  case (Suc n)
  have first: "backend k = Raised" using Suc.prems(1) by force
  have rest: "\<forall>i<n. backend (Suc k + i) = Raised" using Suc.prems(1) by force
  have final: "backend (Suc k + n) = Counts r \<or> backend (Suc k + n) = Status r"
    using Suc.prems(2) by simp
  have "forest_loop backend k slept = forest_loop backend (Suc k) (slept + 1800)"
    by (subst forest_loop.simps) (simp add: first)
  also have "\<dots> = Some (r, slept + 1800 + 1800 * n)"
    by (rule Suc.IH [OF rest final])
  finally show ?case by simp
qed

text \<open>
  Claim C9 (as amended). On the QISKit and Forest backends a failed attempt makes
  \<open>getResults\<close> sleep a fixed time (QISKit: 600 s after an exception, 300 s after a reply
  that is not data; Forest: 1800 s after an exception) and try again, with no bound on
  the number of attempts: if attempt \<open>n\<close> is the first to succeed, for any \<open>n\<close>, its
  result is returned after the sleeps of the \<open>n\<close> failures; if no attempt ever succeeds,
  \<open>getResults\<close> never returns; and in no case does it report an error. So a failure
  neither aborts the game nor skips it, but a persistent failure is retried forever
  rather than surfaced as a fatal error.
\<close>

theorem getResults_retries_without_bound:
  "((\<forall>i<n. \<not> is_counts (backend i)) \<and> backend n = Counts r \<longrightarrow>
       getResults QISKit backend = Some (Inr r, (\<Sum>i<n. qiskit_wait (backend i))))
   \<and> ((\<forall>i<n. backend i = Raised) \<and> (backend n = Counts r \<or> backend n = Status r) \<longrightarrow>
       getResults Forest backend = Some (Inr r, 1800 * n))
   \<and> ((\<forall>i. \<not> is_counts (backend i)) \<longrightarrow> getResults QISKit backend = None)
   \<and> ((\<forall>i. backend i = Raised) \<longrightarrow> getResults Forest backend = None)
   \<and> getResults QISKit backend \<noteq> Some (Inl e, t)
   \<and> getResults Forest backend \<noteq> Some (Inl e, t)"
proof (intro conjI impI)
  assume "(\<forall>i<n. \<not> is_counts (backend i)) \<and> backend n = Counts r"
  then show "getResults QISKit backend = Some (Inr r, (\<Sum>i<n. qiskit_wait (backend i)))"
    using qiskit_loop_first_counts [of n backend 0 r 0] by (simp add: getResults_def)
next
  assume "(\<forall>i<n. backend i = Raised) \<and> (backend n = Counts r \<or> backend n = Status r)"
  then show "getResults Forest backend = Some (Inr r, 1800 * n)"
    using forest_loop_first_reply [of n backend 0 r 0] by (simp add: getResults_def)
next
  assume never: "\<forall>i. \<not> is_counts (backend i)"
  have "qiskit_loop backend 0 0 = None"
  proof (cases "qiskit_loop backend 0 0")
    case (Some y)
    then show ?thesis using qiskit_loop_returns_counts [of backend 0 0 y] never by simp
  qed simp
  then show "getResults QISKit backend = None" by (simp add: getResults_def)
next
  assume never: "\<forall>i. backend i = Raised"
  have "forest_loop backend 0 0 = None"
  proof (cases "forest_loop backend 0 0")
    case (Some y)
    then show ?thesis using forest_loop_returns_reply [of backend 0 0 y] never by simp
  qed simp
  then show "getResults Forest backend = None" by (simp add: getResults_def)
next
  show "getResults QISKit backend \<noteq> Some (Inl e, t)"
    by (auto simp: getResults_def)
next
  show "getResults Forest backend \<noteq> Some (Inl e, t)"
    by (auto simp: getResults_def)
qed

theorem getResults_retries_without_bound_witness:
  "getResults QISKit (\<lambda>k. if k < 2 then Raised else Counts (7::nat)) = Some (Inr 7, 1200)
   \<and> getResults Forest (\<lambda>k. if k < 2 then Raised else Counts (7::nat)) = Some (Inr 7, 3600)
   \<and> getResults QISKit (\<lambda>k. Status (0::nat)) = None"
proof -
  have a: "getResults QISKit (\<lambda>k. if k < 2 then Raised else Counts (7::nat)) = Some (Inr 7, 1200)
   \<and> getResults Forest (\<lambda>k. if k < 2 then Raised else Counts (7::nat)) = Some (Inr 7, 3600)"
    using getResults_retries_without_bound
      [of 2 "\<lambda>k. if k < 2 then Raised else Counts (7::nat)" 7]
    by (simp add: is_counts_def qiskit_wait_def numeral_2_eq_2)
  have b: "getResults QISKit (\<lambda>k. Status (0::nat)) = None"
    using getResults_retries_without_bound [of 0 "\<lambda>k. Status (0::nat)" 0]
    by (simp add: is_counts_def)
  show ?thesis using a b by simp
qed

text \<open>
  The claim as stated fails: with a backend that raises at every attempt, \<open>getResults\<close>
  does not stop after a bounded number of attempts and reports no fatal error; it
  never returns.
\<close>

theorem getResults_persistent_failure_counterexample:
  "getResults QISKit (\<lambda>k. Raised :: nat reply) = None
   \<and> getResults Forest (\<lambda>k. Raised :: nat reply) = None"
proof -
  have q: "qiskit_loop (\<lambda>k. Raised :: nat reply) 0 0 = None"
  proof (cases "qiskit_loop (\<lambda>k. Raised :: nat reply) 0 0")
    case (Some y)
    then show ?thesis
      using qiskit_loop_returns_counts [of "\<lambda>k. Raised :: nat reply" 0 0 y]
      by (simp add: is_counts_def)
  qed simp
  have f: "forest_loop (\<lambda>k. Raised :: nat reply) 0 0 = None"
  proof (cases "forest_loop (\<lambda>k. Raised :: nat reply) 0 0")
    case (Some y)
    then show ?thesis
      using forest_loop_returns_reply [of "\<lambda>k. Raised :: nat reply" 0 0 y] by simp
  qed simp
  show ?thesis using q f by (simp add: getResults_def)
qed

section \<open>Properties of the round engine\<close>










section \<open>Properties of the matching engine\<close>

lemma concat_distinct_sub:
  assumes "distinct (concat xs)" and "distinct ys" and "set ys \<subseteq> set xs"
  shows "distinct (concat ys)"
proof -
  have a: "\<forall>l. l \<in> set ys \<longrightarrow> distinct l" using assms(1,3) by (auto simp: distinct_concat_iff)
  have b: "\<forall>l m. l \<in> set ys \<and> m \<in> set ys \<and> l \<noteq> m \<longrightarrow> set l \<inter> set m = {}"
    using assms(1,3) unfolding distinct_concat_iff by blast
  have c: "distinct (removeAll [] ys)" using assms(2) by (simp add: distinct_removeAll)
  show ?thesis unfolding distinct_concat_iff using a b c by blast
qed

lemma concat_map_distinct:
  assumes "distinct vs" and "\<forall>v \<in> set vs. distinct (g v)"
      and "\<forall>v \<in> set vs. \<forall>v' \<in> set vs. v \<noteq> v' \<longrightarrow> set (g v) \<inter> set (g v') = {}"
  shows "distinct (concat (map g vs))"
  using assms by (induction vs) auto

lemma disjoint_edges_inj:
  assumes "disjoint_edges sel" and "e \<in> set sel" and "e' \<in> set sel"
      and "set (edge_ends e) \<inter> set (edge_ends e') \<noteq> {}"
  shows "e = e'"
proof -
  have d: "distinct (concat (map edge_ends sel))" using assms(1) by (simp add: disjoint_edges_def)
  have nonempty: "[] \<notin> set (map edge_ends sel)" by (auto simp: edge_ends_def)
  have "distinct (removeAll [] (map edge_ends sel))" using d by (simp add: distinct_concat_iff)
  then have dm: "distinct (map edge_ends sel)" using nonempty by simp
  have "edge_ends e = edge_ends e'"
  proof (rule ccontr)
    assume ne: "edge_ends e \<noteq> edge_ends e'"
    have "edge_ends e \<in> set (map edge_ends sel)" "edge_ends e' \<in> set (map edge_ends sel)"
      using assms(2,3) by simp_all
    then have "set (edge_ends e) \<inter> set (edge_ends e') = {}"
      using d ne unfolding distinct_concat_iff by blast
    then show False using assms(4) by simp
  qed
  then show ?thesis using dm assms(2,3) by (auto simp: distinct_map inj_on_def)
qed

lemma disjoint_edges_ends_distinct:
  assumes "disjoint_edges sel" and "(a, b, w) \<in> set sel"
  shows "a \<noteq> b"
proof -
  have "distinct (concat (map edge_ends sel))" using assms(1) by (simp add: disjoint_edges_def)
  moreover have "edge_ends (a, b, w) \<in> set (map edge_ends sel)" using assms(2) by force
  ultimately have "distinct (edge_ends (a, b, w))" unfolding distinct_concat_iff by blast
  then show ?thesis by (simp add: edge_ends_def)
qed

lemma mate_of_selected:
  assumes "disjoint_edges sel" and "(a, b, w) \<in> set sel"
  shows "mate_of sel a = b" and "mate_of sel b = a"
proof -
  have ab: "a \<noteq> b" using assms by (rule disjoint_edges_ends_distinct)
  have found: "find (\<lambda>e. v \<in> set (edge_ends e)) sel = Some (a, b, w)"
    if v: "v \<in> set (edge_ends (a, b, w))" for v
  proof (cases "find (\<lambda>e. v \<in> set (edge_ends e)) sel")
    case None
    then show ?thesis using assms(2) v by (auto simp: find_None_iff)
  next
    case (Some e')
    then have e': "e' \<in> set sel" "v \<in> set (edge_ends e')"
      by (auto simp: find_Some_iff)
    then have "set (edge_ends (a, b, w)) \<inter> set (edge_ends e') \<noteq> {}" using v by blast
    then have "(a, b, w) = e'" using disjoint_edges_inj [OF assms(1) assms(2) e'(1)] by simp
    then show ?thesis using Some by simp
  qed
  show "mate_of sel a = b" using found [of a] by (simp add: mate_of_def edge_ends_def)
  show "mate_of sel b = a" using found [of b] ab by (simp add: mate_of_def edge_ends_def)
qed

lemma mate_of_partner:
  assumes "mate_of sel v = m" and "m \<noteq> - 1"
  shows "\<exists>w. (v, m, w) \<in> set sel \<or> (m, v, w) \<in> set sel"
proof (cases "find (\<lambda>e. v \<in> set (edge_ends e)) sel")
  case None
  then show ?thesis using assms by (simp add: mate_of_def)
next
  case (Some e)
  obtain i j w where e: "e = (i, j, w)" by (cases e)
  have "e \<in> set sel" "v \<in> set (edge_ends e)" using Some by (auto simp: find_Some_iff)
  then have "(i, j, w) \<in> set sel" "i = v \<or> j = v" using e by (auto simp: edge_ends_def)
  moreover have "m = (if i = v then j else i)" using assms(1) Some e by (simp add: mate_of_def)
  ultimately show ?thesis by (cases "i = v") auto
qed

lemma simple_layout_lookup:
  assumes "simple_layout pairs" and "pq \<in> set pairs"
  shows "map_of pairs (fst pq) = Some (snd pq)"
    and "pair_qubits pairs (fst pq) = snd pq"
    and "dict_item pairs (fst pq) = Inr (snd pq)"
    and "length (snd pq) = 2"
proof -
  have "distinct (map fst pairs)" using assms(1) by (simp add: simple_layout_def dict_keys_def)
  then show m: "map_of pairs (fst pq) = Some (snd pq)" using assms(2) by (cases pq) simp
  show "pair_qubits pairs (fst pq) = snd pq" by (simp add: pair_qubits_def m)
  show "dict_item pairs (fst pq) = Inr (snd pq)" by (simp add: dict_item_def m)
  show "length (snd pq) = 2" using assms by (simp add: simple_layout_def)
qed

lemma simple_layout_key:
  assumes "simple_layout pairs" and "p \<in> set (dict_keys pairs)"
  shows "(p, pair_qubits pairs p) \<in> set pairs"
    and "dict_item pairs p = Inr (pair_qubits pairs p)"
    and "length (pair_qubits pairs p) = 2"
proof -
  from assms(2) obtain pq where pq: "pq \<in> set pairs" "fst pq = p"
    by (auto simp: dict_keys_def)
  note l = simple_layout_lookup [OF assms(1) pq(1)]
  show "(p, pair_qubits pairs p) \<in> set pairs" using pq l(2) by (cases pq) auto
  show "dict_item pairs p = Inr (pair_qubits pairs p)" using pq l(2,3) by simp
  show "length (pair_qubits pairs p) = 2" using pq l(2,4) by simp
qed

lemma simple_layout_inj:
  assumes "simple_layout pairs" and "p \<in> set (dict_keys pairs)" and "q \<in> set (dict_keys pairs)"
      and "set (pair_qubits pairs p) = set (pair_qubits pairs q)"
  shows "p = q"
proof -
  have mem: "(p, pair_qubits pairs p) \<in> set pairs" "(q, pair_qubits pairs q) \<in> set pairs"
    using assms(1,2,3) by (simp_all add: simple_layout_key(1))
  have inj: "\<forall>pq \<in> set pairs. \<forall>pq' \<in> set pairs. set (snd pq) = set (snd pq') \<longrightarrow> pq = pq'"
    using assms(1) by (simp add: simple_layout_def)
  have "set (snd (p, pair_qubits pairs p)) = set (snd (q, pair_qubits pairs q))"
    using assms(4) by simp
  then have "(p, pair_qubits pairs p) = (q, pair_qubits pairs q)"
    using inj mem by blast
  then show ?thesis by simp
qed

lemma two_list: "length qs = 2 \<Longrightarrow> qs = [qs ! 0, qs ! 1]"
  by (cases qs; cases "tl qs") auto

lemma edge_loop_ends:
  assumes "edge_loop pairs weight ks = Inr edges"
      and "\<forall>p \<in> set ks. dict_item pairs p = Inr (pair_qubits pairs p) \<and> length (pair_qubits pairs p) = 2"
  shows "map edge_ends edges = map (pair_qubits pairs) ks"
  using assms
proof (induction ks arbitrary: edges)
  case Nil
  then show ?case by simp
next
  case (Cons p ps)
  let ?qs = "pair_qubits pairs p"
  have look: "dict_item pairs p = Inr ?qs" and len: "length ?qs = 2" using Cons.prems(2) by simp_all
  have q: "?qs = [?qs ! 0, ?qs ! 1]" using len by (rule two_list)
  have i0: "list_item ?qs 0 = Inr (?qs ! 0)" using len by (simp add: list_item_def)
  have i1: "list_item ?qs 1 = Inr (?qs ! 1)" using len by (simp add: list_item_def)
  from Cons.prems(1) obtain w rest where
    rest: "edge_loop pairs weight ps = Inr rest" and
    edges: "edges = (?qs ! 0, ?qs ! 1, w) # rest"
    by (auto simp: look i0 i1 split: sum.splits)
  have "map edge_ends rest = map (pair_qubits pairs) ps"
    using Cons.IH [OF rest] Cons.prems(2) by simp
  moreover have "edge_ends (?qs ! 0, ?qs ! 1, w) = ?qs" using q by (simp add: edge_ends_def)
  ultimately show ?case by (simp add: edges)
qed

lemma layout_edges_ends:
  assumes "simple_layout pairs" and "layout_edges rnd pairs oneProb = Inr edges"
  shows "map edge_ends edges = map snd pairs"
proof -
  from assms(2) obtain weight where "edge_loop pairs weight (dict_keys pairs) = Inr edges"
    by (auto simp: layout_edges_def split: sum.splits)
  then have "map edge_ends edges = map (pair_qubits pairs) (dict_keys pairs)"
    using simple_layout_key(2,3) [OF assms(1)] by (intro edge_loop_ends) auto
  also have "\<dots> = map snd pairs"
    using simple_layout_lookup(2) [OF assms(1)] by (simp add: dict_keys_def)
  finally show ?thesis .
qed

lemma matchings_sub:
  assumes "sel \<in> set (matchings edges)"
  shows "set sel \<subseteq> set edges" and "disjoint_edges sel"
proof -
  have "sel \<in> set (subseqs edges)" using assms by (simp add: matchings_def)
  then have "set sel \<in> set ` set (subseqs edges)" by blast
  then show "set sel \<subseteq> set edges" by (simp add: subseqs_powset)
  show "disjoint_edges sel" using assms by (simp add: matchings_def)
qed

lemma matched_pairs_set:
  assumes lay: "simple_layout pairs"
      and ends: "map edge_ends edges = map snd pairs"
      and nonneg: "\<forall>pq \<in> set pairs. \<forall>v \<in> set (snd pq). 0 \<le> v"
      and sel: "sel \<in> set (matchings edges)"
      and len: "\<forall>e \<in> set edges. \<forall>v \<in> set (edge_ends e). v < int (length match)"
      and mate: "\<forall>v < length match. match ! v = mate_of sel (int v)"
  shows "set (matched_pairs pairs match) =
           {p \<in> set (dict_keys pairs). pair_qubits pairs p \<in> edge_ends ` set sel}"
proof (intro set_eqI iffI)
  fix p
  assume "p \<in> set (matched_pairs pairs match)"
  then obtain v where v: "v < length match" and key: "p \<in> set (dict_keys pairs)"
    and eq: "dict_item pairs p = Inr [int v, match ! v]"
    by (auto simp: matched_pairs_def)
  have qs: "pair_qubits pairs p = [int v, match ! v]"
    using simple_layout_key(2) [OF lay key] eq by simp
  have "(p, [int v, match ! v]) \<in> set pairs" using simple_layout_key(1) [OF lay key] qs by simp
  then have "0 \<le> match ! v" using nonneg by force
  then have "mate_of sel (int v) \<noteq> - 1" using mate v by simp
  then obtain w where w: "(int v, match ! v, w) \<in> set sel \<or> (match ! v, int v, w) \<in> set sel"
    using mate_of_partner [of sel "int v" "match ! v"] mate v by auto
  from w have "\<exists>e. e \<in> set sel \<and> set (edge_ends e) = {int v, match ! v}"
  proof
    assume "(int v, match ! v, w) \<in> set sel"
    moreover have "set (edge_ends (int v, match ! v, w)) = {int v, match ! v}"
      by (simp add: edge_ends_def)
    ultimately show ?thesis by blast
  next
    assume "(match ! v, int v, w) \<in> set sel"
    moreover have "set (edge_ends (match ! v, int v, w)) = {int v, match ! v}"
      by (auto simp: edge_ends_def)
    ultimately show ?thesis by blast
  qed
  then obtain e where e: "e \<in> set sel" "set (edge_ends e) = {int v, match ! v}"
    by blast
  have "e \<in> set edges" using e(1) matchings_sub(1) [OF sel] by blast
  then have "edge_ends e \<in> set (map snd pairs)" using ends [symmetric] by simp
  then obtain pq where pq: "pq \<in> set pairs" "snd pq = edge_ends e" by auto
  have k2: "fst pq \<in> set (dict_keys pairs)" using pq(1) by (simp add: dict_keys_def)
  have "pair_qubits pairs (fst pq) = edge_ends e"
    using simple_layout_lookup(2) [OF lay pq(1)] pq(2) by simp
  then have "set (pair_qubits pairs (fst pq)) = set (pair_qubits pairs p)" using e(2) qs by simp
  then have "fst pq = p" using simple_layout_inj [OF lay k2 key] by simp
  then have "pair_qubits pairs p = edge_ends e"
    using \<open>pair_qubits pairs (fst pq) = edge_ends e\<close> by simp
  then show "p \<in> {p \<in> set (dict_keys pairs). pair_qubits pairs p \<in> edge_ends ` set sel}"
    using key e(1) by auto
next
  fix p
  assume "p \<in> {p \<in> set (dict_keys pairs). pair_qubits pairs p \<in> edge_ends ` set sel}"
  then obtain e where key: "p \<in> set (dict_keys pairs)"
    and e: "e \<in> set sel" "pair_qubits pairs p = edge_ends e" by auto
  obtain a b w where abw: "e = (a, b, w)" by (cases e)
  have qs: "pair_qubits pairs p = [a, b]" using e(2) abw by (simp add: edge_ends_def)
  have "(p, [a, b]) \<in> set pairs" using simple_layout_key(1) [OF lay key] qs by simp
  then have a0: "0 \<le> a" using nonneg by force
  have "e \<in> set edges" using e(1) matchings_sub(1) [OF sel] by blast
  then have "a < int (length match)" using len abw by (auto simp: edge_ends_def)
  then have v: "nat a < length match" using a0 by simp
  have "mate_of sel a = b"
    using mate_of_selected(1) [OF matchings_sub(2) [OF sel]] e(1) abw by simp
  then have "match ! nat a = b" using mate v a0 by simp
  then have "dict_item pairs p = Inr [int (nat a), match ! nat a]"
    using simple_layout_key(2) [OF lay key] qs a0 by simp
  then have "p \<in> set (filter (\<lambda>p. dict_item pairs p = Inr [int (nat a), match ! nat a])
                     (dict_keys pairs))"
    using key by simp
  moreover have "nat a \<in> set [0..<length match]" using v by simp
  ultimately show "p \<in> set (matched_pairs pairs match)"
    unfolding matched_pairs_def set_concat set_map by blast
qed

lemma matched_pairs_distinct:
  assumes "distinct (dict_keys pairs)"
  shows "distinct (matched_pairs pairs match)"
  unfolding matched_pairs_def
proof (rule concat_map_distinct)
  show "distinct [0..<length match]" by simp
  show "\<forall>v\<in>set [0..<length match].
       distinct (filter (\<lambda>p. dict_item pairs p = Inr [int v, match ! v]) (dict_keys pairs))"
    using assms by simp
  show "\<forall>v\<in>set [0..<length match]. \<forall>v'\<in>set [0..<length match]. v \<noteq> v' \<longrightarrow>
       set (filter (\<lambda>p. dict_item pairs p = Inr [int v, match ! v]) (dict_keys pairs)) \<inter>
       set (filter (\<lambda>p. dict_item pairs p = Inr [int v', match ! v']) (dict_keys pairs)) = {}"
    by auto
qed

lemma matching_names_filter:
  "matching_names pairs match = filter (\<lambda>p. \<not> is_fake p) (matched_pairs pairs match)"
  by (simp add: matching_names_def matched_pairs_def filter_concat comp_def)

lemma matched_pairs_keys: "set (matched_pairs pairs match) \<subseteq> set (dict_keys pairs)"
  by (auto simp: matched_pairs_def)

lemma filter_length_mono:
  assumes "distinct xs" and "set xs \<subseteq> set ys"
  shows "length (filter P xs) \<le> length (filter P ys)"
proof -
  have "distinct (filter P xs)" using assms(1) by simp
  then have "length (filter P xs) = card (set (filter P xs))" by (rule distinct_card [symmetric])
  also have "\<dots> \<le> card (set (filter P ys))" using assms(2) by (intro card_mono) auto
  also have "\<dots> \<le> length (filter P ys)" by (rule card_length)
  finally show ?thesis .
qed

lemma filter_in_subseqs: "filter P xs \<in> set (subseqs xs)"
  by (induction xs) (auto simp: Let_def)

lemma simple_layout_values_distinct:
  assumes "simple_layout pairs"
  shows "distinct (map snd pairs)"
proof -
  have "distinct (map fst pairs)" using assms by (simp add: simple_layout_def dict_keys_def)
  then have d: "distinct pairs" by (simp add: distinct_map)
  have inj: "\<forall>pq \<in> set pairs. \<forall>pq' \<in> set pairs. set (snd pq) = set (snd pq') \<longrightarrow> pq = pq'"
    using assms by (simp add: simple_layout_def)
  have "inj_on snd (set pairs)"
  proof (rule inj_onI)
    fix x y assume "x \<in> set pairs" "y \<in> set pairs" "snd x = snd y"
    then show "x = y" using inj by simp
  qed
  then show ?thesis using d by (simp add: distinct_map)
qed

lemma pair_qubits_inj:
  assumes "simple_layout pairs" and "set ns \<subseteq> set (dict_keys pairs)"
  shows "inj_on (pair_qubits pairs) (set ns)"
proof (rule inj_onI)
  fix p q assume "p \<in> set ns" "q \<in> set ns" "pair_qubits pairs p = pair_qubits pairs q"
  then show "p = q" using simple_layout_inj [OF assms(1), of p q] assms(2) by auto
qed

lemma pair_qubits_values:
  assumes "simple_layout pairs"
  shows "pair_qubits pairs ` set (dict_keys pairs) = set (map snd pairs)"
proof (intro set_eqI iffI)
  fix qs assume "qs \<in> pair_qubits pairs ` set (dict_keys pairs)"
  then obtain p where "p \<in> set (dict_keys pairs)" "qs = pair_qubits pairs p" by blast
  then have "(p, qs) \<in> set pairs" using simple_layout_key(1) [OF assms] by simp
  then show "qs \<in> set (map snd pairs)" by force
next
  fix qs assume "qs \<in> set (map snd pairs)"
  then obtain pq where pq: "pq \<in> set pairs" "snd pq = qs" by auto
  have "fst pq \<in> set (dict_keys pairs)" using pq(1) by (simp add: dict_keys_def)
  moreover have "pair_qubits pairs (fst pq) = qs"
    using simple_layout_lookup(2) [OF assms pq(1)] pq(2) by simp
  ultimately show "qs \<in> pair_qubits pairs ` set (dict_keys pairs)" by blast
qed

lemma disjoint_pairs_matching:
  assumes lay: "simple_layout pairs"
      and ends: "map edge_ends edges = map snd pairs"
      and ns: "disjoint_pairs pairs ns"
  shows "\<exists>m \<in> set (matchings edges). length m = length ns"
proof -
  let ?val = "pair_qubits pairs"
  let ?m = "filter (\<lambda>e. edge_ends e \<in> ?val ` set ns) edges"
  have dns: "distinct ns" and sub: "set ns \<subseteq> set (dict_keys pairs)"
    and dq: "distinct (concat (map ?val ns))"
    using ns by (simp_all add: disjoint_pairs_def)
  have me: "map edge_ends ?m = filter (\<lambda>qs. qs \<in> ?val ` set ns) (map snd pairs)"
    unfolding ends [symmetric] by (simp add: filter_map comp_def)
  have dm: "distinct (map edge_ends ?m)"
    unfolding me using simple_layout_values_distinct [OF lay] by simp
  have "?val ` set ns \<subseteq> set (map snd pairs)"
    using sub pair_qubits_values [OF lay] by blast
  then have sm: "set (map edge_ends ?m) = ?val ` set ns" unfolding me by auto
  have "length ?m = length (map edge_ends ?m)" by simp
  also have "\<dots> = card (set (map edge_ends ?m))" by (rule distinct_card [OF dm, symmetric])
  also have "\<dots> = card (?val ` set ns)" using sm by simp
  also have "\<dots> = card (set ns)" using pair_qubits_inj [OF lay sub] by (rule card_image)
  also have "\<dots> = length ns" using dns by (simp add: distinct_card)
  finally have len: "length ?m = length ns" .
  have "set (map edge_ends ?m) \<subseteq> set (map ?val ns)" using sm by simp
  then have "distinct (concat (map edge_ends ?m))" using dq dm by (rule concat_distinct_sub [rotated 2])
  then have "disjoint_edges ?m" by (simp add: disjoint_edges_def)
  then have "?m \<in> set (matchings edges)" by (simp add: matchings_def filter_in_subseqs)
  then show ?thesis using len by blast
qed

lemma matching_names_length:
  assumes lay: "simple_layout pairs"
      and ends: "map edge_ends edges = map snd pairs"
      and sel: "sel \<in> set (matchings edges)"
      and names: "set names = {p \<in> set (dict_keys pairs). pair_qubits pairs p \<in> edge_ends ` set sel}"
      and dn: "distinct names"
  shows "length names = length sel"
proof -
  let ?val = "pair_qubits pairs"
  have sub: "set names \<subseteq> set (dict_keys pairs)" using names by auto
  have "edge_ends ` set sel \<subseteq> edge_ends ` set edges" using matchings_sub(1) [OF sel] by blast
  also have "\<dots> = set (map snd pairs)" using ends by (metis set_map)
  also have "\<dots> = ?val ` set (dict_keys pairs)" using pair_qubits_values [OF lay] by simp
  finally have "edge_ends ` set sel \<subseteq> ?val ` set (dict_keys pairs)" .
  then have img: "?val ` set names = edge_ends ` set sel"
  proof (intro set_eqI iffI)
    fix qs assume "qs \<in> ?val ` set names"
    then show "qs \<in> edge_ends ` set sel" unfolding names by blast
  next
    fix qs assume q: "qs \<in> edge_ends ` set sel"
    then have "qs \<in> ?val ` set (dict_keys pairs)"
      using \<open>edge_ends ` set sel \<subseteq> ?val ` set (dict_keys pairs)\<close> by blast
    then obtain p where "p \<in> set (dict_keys pairs)" "qs = ?val p" by blast
    then have "p \<in> set names" using q unfolding names by simp
    then show "qs \<in> ?val ` set names" using \<open>qs = ?val p\<close> by blast
  qed
  have "distinct (concat (map edge_ends sel))"
    using matchings_sub(2) [OF sel] by (simp add: disjoint_edges_def)
  then have "distinct (removeAll [] (map edge_ends sel))" by (simp add: distinct_concat_iff)
  moreover have "[] \<notin> set (map edge_ends sel)" by (auto simp: edge_ends_def)
  ultimately have ds: "distinct (map edge_ends sel)" by simp
  have "length names = card (set names)" using dn by (simp add: distinct_card)
  also have "\<dots> = card (?val ` set names)"
    using pair_qubits_inj [OF lay sub] by (simp add: card_image)
  also have "\<dots> = card (set (map edge_ends sel))" using img by simp
  also have "\<dots> = length (map edge_ends sel)" by (rule distinct_card [OF ds])
  finally show ?thesis by simp
qed

lemma matching_names_disjoint:
  assumes lay: "simple_layout pairs"
      and sel: "sel \<in> set (matchings edges)"
      and names: "set names \<subseteq> {p \<in> set (dict_keys pairs). pair_qubits pairs p \<in> edge_ends ` set sel}"
      and dn: "distinct names"
  shows "disjoint_pairs pairs names"
proof -
  let ?val = "pair_qubits pairs"
  have sub: "set names \<subseteq> set (dict_keys pairs)" using names by auto
  have d1: "distinct (concat (map edge_ends sel))"
    using matchings_sub(2) [OF sel] by (simp add: disjoint_edges_def)
  have d2: "distinct (map ?val names)"
    using dn pair_qubits_inj [OF lay sub] by (simp add: distinct_map)
  have d3: "set (map ?val names) \<subseteq> set (map edge_ends sel)" using names by auto
  have "distinct (concat (map ?val names))" using d1 d2 d3 by (rule concat_distinct_sub)
  then show ?thesis using dn sub by (simp add: disjoint_pairs_def)
qed

lemma simple_layout_nonneg:
  assumes "simple_layout pairs"
  shows "\<forall>pq \<in> set pairs. \<forall>v \<in> set (snd pq). 0 \<le> v"
  using assms by (simp add: simple_layout_def)

lemma disjoint_pairs_bound:
  assumes lay: "simple_layout pairs"
      and rng: "\<forall>pq \<in> set pairs. \<forall>v \<in> set (snd pq). v < int k"
      and ns: "disjoint_pairs pairs ns"
  shows "2 * length ns \<le> k"
proof -
  let ?val = "pair_qubits pairs"
  let ?xs = "concat (map ?val ns)"
  have sub: "set ns \<subseteq> set (dict_keys pairs)" and d: "distinct ?xs"
    using ns by (simp_all add: disjoint_pairs_def)
  have two: "\<forall>p \<in> set ns. length (?val p) = 2"
    using sub simple_layout_key(3) [OF lay] by blast
  have "length ?xs = sum_list (map (\<lambda>p. length (?val p)) ns)"
    by (simp add: length_concat comp_def)
  also have "\<dots> = sum_list (map (\<lambda>p. 2) ns)"
    using two by (intro arg_cong [of _ _ sum_list] map_cong) simp_all
  also have "\<dots> = 2 * length ns" by (simp add: sum_list_triv)
  finally have len: "length ?xs = 2 * length ns" .
  have "set ?xs \<subseteq> {0..<int k}"
  proof
    fix v assume "v \<in> set ?xs"
    then obtain p where p: "p \<in> set ns" "v \<in> set (?val p)" by auto
    have "(p, ?val p) \<in> set pairs" using p(1) sub simple_layout_key(1) [OF lay] by blast
    then have "v < int k" "0 \<le> v" using rng simple_layout_nonneg [OF lay] p(2) by force+
    then show "v \<in> {0..<int k}" by simp
  qed
  then have "card (set ?xs) \<le> card {0..<int k}" by (intro card_mono) simp_all
  moreover have "card (set ?xs) = length ?xs" by (rule distinct_card [OF d])
  moreover have "card {0..<int k} = k" by simp
  ultimately have "length ?xs \<le> k" by (simp only:)
  then show ?thesis using len by simp
qed

lemma complete_layout_matching:
  assumes lay: "simple_layout pairs" and com: "complete_layout pairs k"
  shows "2 * n \<le> k \<Longrightarrow>
         \<exists>ns. disjoint_pairs pairs ns \<and> length ns = n
              \<and> set (concat (map (pair_qubits pairs) ns)) \<subseteq> {0..<int (2 * n)}"
proof (induction n)
  case 0
  have "disjoint_pairs pairs []" by (simp add: disjoint_pairs_def)
  then show ?case by (intro exI [of _ "[]"]) simp
next
  case (Suc n)
  let ?val = "pair_qubits pairs"
  from Suc obtain ns where ns: "disjoint_pairs pairs ns" "length ns = n"
    "set (concat (map ?val ns)) \<subseteq> {0..<int (2 * n)}" by auto
  have "2 * n < k" "2 * n + 1 < k" "2 * n \<noteq> 2 * n + 1" using Suc.prems by simp_all
  then obtain pq where pq: "pq \<in> set pairs" "set (snd pq) = {int (2 * n), int (2 * n + 1)}"
    using com unfolding complete_layout_def by blast
  let ?p = "fst pq"
  have key: "?p \<in> set (dict_keys pairs)" using pq(1) by (simp add: dict_keys_def)
  have val: "?val ?p = snd pq" using simple_layout_lookup(2) [OF lay pq(1)] .
  have len: "length (snd pq) = 2" using simple_layout_lookup(4) [OF lay pq(1)] .
  have "card (set (snd pq)) = 2" unfolding pq(2) by simp
  then have dq: "distinct (snd pq)" using len by (simp add: card_distinct)
  have fresh: "set (snd pq) \<inter> set (concat (map ?val ns)) = {}"
    using ns(3) unfolding pq(2) by auto
  have notin: "?p \<notin> set ns"
  proof
    assume "?p \<in> set ns"
    then have "set (?val ?p) \<subseteq> set (concat (map ?val ns))" by auto
    then show False using fresh val pq(2) by auto
  qed
  have "disjoint_pairs pairs (?p # ns)"
    using ns(1) key notin dq fresh val by (simp add: disjoint_pairs_def)
  moreover have "length (?p # ns) = Suc n" using ns(2) by simp
  moreover have "set (concat (map ?val (?p # ns))) \<subseteq> {0..<int (2 * Suc n)}"
    using ns(3) val pq(2) by auto
  ultimately show ?case by blast
qed

lemma maxWeightMatching_specI:
  assumes "sel \<in> set (matchings edges)"
      and "optimal_matching edges sel"
      and "\<forall>e \<in> set edges. \<forall>v \<in> set (edge_ends e). 0 \<le> v \<and> v < int (length match)"
      and "match = map (\<lambda>v. mate_of sel (int v)) [0..<length match]"
  shows "maxWeightMatching_spec edges match"
proof -
  have "match ! v = mate_of sel (int v)" if "v < length match" for v
  proof -
    have "match ! v = map (\<lambda>v. mate_of sel (int v)) [0..<length match] ! v"
      using assms(4) by simp
    also have "\<dots> = mate_of sel (int (0 + v))" using that by (intro nth_map_upt) simp
    finally show ?thesis by simp
  qed
  then show ?thesis unfolding maxWeightMatching_spec_def using assms(1,2,3) by blast
qed

lemma triangle_spec:
  "maxWeightMatching_spec [(0, 1, 9), (1, 2, 5), (0, 2, 5)] [1, 0, - 1]"
proof (rule maxWeightMatching_specI [of "[(0, 1, 9)]"])
  show "[(0, 1, 9)] \<in> set (matchings [(0, 1, 9), (1, 2, 5), (0, 2, 5)])"
    by (simp add: matchings_def disjoint_edges_def edge_ends_def Let_def)
  show "optimal_matching [(0, 1, 9), (1, 2, 5), (0, 2, 5)] [(0, 1, 9)]"
    by (simp add: optimal_matching_def matchings_def disjoint_edges_def edge_ends_def
        edge_weight_def Let_def)
  show "\<forall>e \<in> set [(0, 1, 9), (1, 2, 5), (0, 2, 5 :: real)].
          \<forall>v \<in> set (edge_ends e). 0 \<le> v \<and> v < int (length [1, 0, - 1 :: int])"
    by (simp add: edge_ends_def)
  show "[1, 0, - 1] = map (\<lambda>v. mate_of [(0, 1, 9)] (int v)) [0..<length [1, 0, - 1 :: int]]"
    by (simp add: upt_rec mate_of_def edge_ends_def)
qed

lemma parallel_spec: "maxWeightMatching_spec [(0, 1, 5), (0, 1, 5)] [1, 0]"
proof (rule maxWeightMatching_specI [of "[(0, 1, 5)]"])
  show "[(0, 1, 5)] \<in> set (matchings [(0, 1, 5), (0, 1, 5)])"
    by (simp add: matchings_def disjoint_edges_def edge_ends_def Let_def)
  show "optimal_matching [(0, 1, 5), (0, 1, 5)] [(0, 1, 5)]"
    by (simp add: optimal_matching_def matchings_def disjoint_edges_def edge_ends_def
        edge_weight_def Let_def)
  show "\<forall>e \<in> set [(0, 1, 5), (0, 1, 5 :: real)].
          \<forall>v \<in> set (edge_ends e). 0 \<le> v \<and> v < int (length [1, 0 :: int])"
    by (simp add: edge_ends_def)
  show "[1, 0] = map (\<lambda>v. mate_of [(0, 1, 5)] (int v)) [0..<length [1, 0 :: int]]"
    by (simp add: upt_rec mate_of_def edge_ends_def)
qed

lemma fake_spec: "maxWeightMatching_spec [(0, 1, 0), (1, 2, 100)] [- 1, 2, 1]"
proof (rule maxWeightMatching_specI [of "[(1, 2, 100)]"])
  show "[(1, 2, 100)] \<in> set (matchings [(0, 1, 0), (1, 2, 100)])"
    by (simp add: matchings_def disjoint_edges_def edge_ends_def Let_def)
  show "optimal_matching [(0, 1, 0), (1, 2, 100)] [(1, 2, 100)]"
    by (simp add: optimal_matching_def matchings_def disjoint_edges_def edge_ends_def
        edge_weight_def Let_def)
  show "\<forall>e \<in> set [(0, 1, 0), (1, 2, 100 :: real)].
          \<forall>v \<in> set (edge_ends e). 0 \<le> v \<and> v < int (length [- 1, 2, 1 :: int])"
    by (simp add: edge_ends_def)
  show "[- 1, 2, 1] = map (\<lambda>v. mate_of [(1, 2, 100)] (int v)) [0..<length [- 1, 2, 1 :: int]]"
    by (simp add: upt_rec mate_of_def edge_ends_def)
qed

lemma triangle_facts:
  "simple_layout triangle_layout"
  "layout_edges (\<lambda>i. if i = 0 then 9 else 5) triangle_layout []
      = Inr [(0, 1, 9), (1, 2, 5), (0, 2, 5)]"
  "\<forall>p \<in> set (dict_keys triangle_layout). \<not> is_fake p"
  "matching_names triangle_layout [1, 0, - 1] = [''A'']"
proof -
  show "simple_layout triangle_layout"
    by (simp add: simple_layout_def dict_keys_def doubleton_eq_iff triangle_layout_def)
  show "layout_edges (\<lambda>i. if i = 0 then 9 else 5) triangle_layout []
      = Inr [(0, 1, 9), (1, 2, 5), (0, 2, 5)]"
    by (simp add: layout_edges_def dict_keys_def dict_store_def dict_item_def list_item_def
        triangle_layout_def)
  show "\<forall>p \<in> set (dict_keys triangle_layout). \<not> is_fake p"
    by (simp add: dict_keys_def triangle_layout_def is_fake_def)
  show "matching_names triangle_layout [1, 0, - 1] = [''A'']"
    by (simp add: matching_names_def dict_keys_def dict_item_def is_fake_def upt_rec
        triangle_layout_def)
qed

lemma triangle_complete: "complete_layout triangle_layout 3"
proof -
  have three: "\<And>v::nat. v < 3 \<longleftrightarrow> v = 0 \<or> v = 1 \<or> v = 2" by auto
  show ?thesis
    unfolding complete_layout_def triangle_layout_def
    by (auto simp: three doubleton_eq_iff)
qed

text \<open>
  Claim C1 (as amended). For every layout, the list returned by \<open>getDisjointPairs\<close> is
  the list of the pairs of the matching (the pairs \<open>[v, match[v]]\<close>, in the order of
  \<open>v\<close>) without its fake pairs: it contains only pair names of the layout not flagged
  \<^verbatim>\<open>fake\<close>, and no pair name twice. For a layout in which no two pairs join the same
  two qubits, and every list \<^verbatim>\<open>match\<close> that \<^verbatim>\<open>maxWeightMatching\<close> returns for the
  layout's edges: no qubit index appears in two pairs of the matching, hence in two
  returned pairs, and the matching has the maximum cardinality achievable by disjoint
  pairs: no disjoint set of pairs of the layout is larger than the returned list
  together with the fake pairs of the matching, which are at most as many as the fake
  pairs of the layout; for a layout of \<open>k\<close> fully connected qubits the returned pairs and
  the fake pairs of the matching are exactly \<open>k div 2\<close> (\<open>k/2\<close> for even \<open>k\<close>). If the
  layout has no fake pair, the returned list is the whole matching.
\<close>

theorem getDisjointPairs_matching:
  assumes "layout_edges rnd pairs oneProb = Inr edges"
  shows "\<exists>names full. getDisjointPairs maxWeightMatching rnd pairs oneProb = Inr names
           \<and> full = matched_pairs pairs (maxWeightMatching edges)
           \<and> names = filter (\<lambda>p. \<not> is_fake p) full
           \<and> (\<forall>p \<in> set names. \<not> is_fake p)
           \<and> set names \<subseteq> set (dict_keys pairs)
           \<and> (distinct (dict_keys pairs) \<longrightarrow> distinct names)
           \<and> length full = length names + length (filter is_fake full)
           \<and> ((\<forall>p \<in> set (dict_keys pairs). \<not> is_fake p) \<longrightarrow> names = full)
           \<and> (simple_layout pairs \<and> maxWeightMatching_spec edges (maxWeightMatching edges) \<longrightarrow>
                disjoint_pairs pairs full
              \<and> disjoint_pairs pairs names
              \<and> length (filter is_fake full) \<le> length (filter is_fake (dict_keys pairs))
              \<and> (\<forall>ns. disjoint_pairs pairs ns \<longrightarrow>
                    length ns \<le> length names + length (filter is_fake full))
              \<and> (\<forall>k. complete_layout pairs k \<longrightarrow>
                    length names + length (filter is_fake full) = k div 2))"
proof -
  let ?match = "maxWeightMatching edges"
  let ?full = "matched_pairs pairs ?match"
  let ?names = "filter (\<lambda>p. \<not> is_fake p) ?full"
  let ?val = "pair_qubits pairs"
  have res: "getDisjointPairs maxWeightMatching rnd pairs oneProb = Inr ?names"
    using assms by (simp add: getDisjointPairs_def matching_names_filter)
  have nofake: "\<forall>p \<in> set ?names. \<not> is_fake p" by simp
  have keys: "set ?names \<subseteq> set (dict_keys pairs)"
    using matched_pairs_keys [of pairs ?match] by auto
  have dist: "distinct (dict_keys pairs) \<longrightarrow> distinct ?names"
    by (simp add: matched_pairs_distinct)
  have split: "length ?full = length ?names + length (filter is_fake ?full)"
    using sum_length_filter_compl [of is_fake ?full] by simp
  have whole: "?names = ?full" if "\<forall>p \<in> set (dict_keys pairs). \<not> is_fake p"
  proof -
    have "\<forall>p \<in> set ?full. \<not> is_fake p"
      using that matched_pairs_keys [of pairs ?match] by blast
    then show ?thesis by simp
  qed
  have big: "disjoint_pairs pairs ?full
              \<and> disjoint_pairs pairs ?names
              \<and> length (filter is_fake ?full) \<le> length (filter is_fake (dict_keys pairs))
              \<and> (\<forall>ns. disjoint_pairs pairs ns \<longrightarrow>
                    length ns \<le> length ?names + length (filter is_fake ?full))
              \<and> (\<forall>k. complete_layout pairs k \<longrightarrow>
                    length ?names + length (filter is_fake ?full) = k div 2)"
    if hyp: "simple_layout pairs \<and> maxWeightMatching_spec edges ?match"
  proof -
    have lay: "simple_layout pairs" and spec: "maxWeightMatching_spec edges ?match"
      using hyp by simp_all
    have dk: "distinct (dict_keys pairs)" using lay by (simp add: simple_layout_def)
    have ends: "map edge_ends edges = map snd pairs"
      using lay assms by (rule layout_edges_ends)
    from spec obtain sel where sel: "sel \<in> set (matchings edges)"
      and opt: "optimal_matching edges sel"
      and len: "\<forall>e \<in> set edges. \<forall>v \<in> set (edge_ends e). v < int (length ?match)"
      and mate: "\<forall>v < length ?match. ?match ! v = mate_of sel (int v)"
      unfolding maxWeightMatching_spec_def by blast
    have fset: "set ?full = {p \<in> set (dict_keys pairs). ?val p \<in> edge_ends ` set sel}"
      using lay ends simple_layout_nonneg [OF lay] sel len mate by (rule matched_pairs_set)
    have df: "distinct ?full" using dk by (rule matched_pairs_distinct)
    have dn: "distinct ?names" using df by simp
    have "set ?full \<subseteq> {p \<in> set (dict_keys pairs). ?val p \<in> edge_ends ` set sel}"
      using fset by simp
    then have disf: "disjoint_pairs pairs ?full"
      using lay sel df by (intro matching_names_disjoint)
    have "set ?names \<subseteq> {p \<in> set (dict_keys pairs). ?val p \<in> edge_ends ` set sel}"
      using fset by auto
    then have disn: "disjoint_pairs pairs ?names"
      using lay sel dn by (intro matching_names_disjoint) simp_all
    have fk: "length (filter is_fake ?full) \<le> length (filter is_fake (dict_keys pairs))"
      using df matched_pairs_keys by (rule filter_length_mono)
    have ls: "length ?full = length sel"
      using lay ends sel fset df by (rule matching_names_length)
    have mx: "length ns \<le> length ?full" if dp: "disjoint_pairs pairs ns" for ns
    proof -
      obtain m where m: "m \<in> set (matchings edges)" "length m = length ns"
        using disjoint_pairs_matching [OF lay ends dp] by blast
      have "length m \<le> length sel" using opt m(1) unfolding optimal_matching_def by force
      then show ?thesis using m(2) ls by simp
    qed
    have half: "length ?full = k div 2" if com: "complete_layout pairs k" for k
    proof -
      have rng: "\<forall>pq \<in> set pairs. \<forall>v \<in> set (snd pq). v < int k"
        using com by (simp add: complete_layout_def)
      have up: "2 * length ?full \<le> k" using lay rng disf by (rule disjoint_pairs_bound)
      have "2 * (k div 2) \<le> k" by simp
      then obtain ns where "disjoint_pairs pairs ns" "length ns = k div 2"
        using complete_layout_matching [OF lay com, of "k div 2"] by blast
      then have "k div 2 \<le> length ?full" using mx by force
      then show ?thesis using up by simp
    qed
    show ?thesis using disf disn fk mx half split by simp
  qed
  show ?thesis
    using res nofake keys dist split whole big by (intro exI [of _ ?names] exI [of _ ?full]) blast
qed

lemma fake_facts:
  "simple_layout fake_layout"
  "layout_edges (\<lambda>i. if i = 0 then 0 else 100) fake_layout [] = Inr [(0, 1, 0), (1, 2, 100)]"
  "matched_pairs fake_layout [- 1, 2, 1] = [''fake1'']"
  "is_fake ''fake1''"
  "disjoint_pairs fake_layout [''A'']"
proof -
  show "simple_layout fake_layout"
    by (simp add: simple_layout_def dict_keys_def doubleton_eq_iff fake_layout_def)
  show "layout_edges (\<lambda>i. if i = 0 then 0 else 100) fake_layout []
      = Inr [(0, 1, 0), (1, 2, 100)]"
    by (simp add: layout_edges_def dict_keys_def dict_store_def dict_item_def list_item_def
        fake_layout_def)
  show "matched_pairs fake_layout [- 1, 2, 1] = [''fake1'']"
    by (simp add: matched_pairs_def dict_keys_def dict_item_def upt_rec fake_layout_def)
  show "is_fake ''fake1''" by (simp add: is_fake_def)
  show "disjoint_pairs fake_layout [''A'']"
    by (simp add: disjoint_pairs_def pair_qubits_def fake_layout_def dict_keys_def)
qed

theorem getDisjointPairs_matching_witness:
  "getDisjointPairs (\<lambda>es. [1, 0, - 1]) (\<lambda>i. if i = 0 then 9 else 5) triangle_layout []
     = Inr [''A'']
   \<and> disjoint_pairs triangle_layout [''A'']
   \<and> length [''A''] = 3 div 2
   \<and> getDisjointPairs (\<lambda>es. [- 1, 2, 1]) (\<lambda>i. if i = 0 then 0 else 100) fake_layout []
       = Inr (filter (\<lambda>p. \<not> is_fake p) [''fake1''])
   \<and> disjoint_pairs fake_layout [''fake1'']
   \<and> length [''A''] \<le> length (filter (\<lambda>p. \<not> is_fake p) [''fake1''])
         + length (filter is_fake [''fake1''])"
proof -
  have names: "getDisjointPairs (\<lambda>es. [1, 0, - 1]) (\<lambda>i. if i = 0 then 9 else 5) triangle_layout []
     = Inr [''A'']"
    by (simp add: getDisjointPairs_def triangle_facts(2,4))
  from getDisjointPairs_matching
    [of "\<lambda>i. if i = 0 then 9 else 5" triangle_layout "[]" "[(0, 1, 9), (1, 2, 5), (0, 2, 5)]"
        "\<lambda>es. [1, 0, - 1]", OF triangle_facts(2)]
  obtain ns full where ns:
    "getDisjointPairs (\<lambda>es. [1, 0, - 1]) (\<lambda>i. if i = 0 then 9 else 5) triangle_layout [] = Inr ns"
    "(\<forall>p \<in> set (dict_keys triangle_layout). \<not> is_fake p) \<longrightarrow> ns = full"
    "simple_layout triangle_layout
       \<and> maxWeightMatching_spec [(0, 1, 9), (1, 2, 5), (0, 2, 5)] [1, 0, - 1] \<longrightarrow>
     disjoint_pairs triangle_layout ns
       \<and> (\<forall>k. complete_layout triangle_layout k \<longrightarrow>
             length ns + length (filter is_fake full) = k div 2)"
    by blast
  have eq: "ns = [''A'']" using ns(1) names by simp
  have full: "full = [''A'']" using ns(2) triangle_facts(3) eq by simp
  have t1: "disjoint_pairs triangle_layout ns"
    using ns(3) triangle_facts(1) triangle_spec by blast
  have "length ns + length (filter is_fake full) = 3 div 2"
    using ns(3) triangle_facts(1) triangle_spec triangle_complete by blast
  then have t2: "length [''A''] = 3 div 2" using eq full by (simp add: is_fake_def)
  from getDisjointPairs_matching
    [of "\<lambda>i. if i = 0 then 0 else 100" fake_layout "[]" "[(0, 1, 0), (1, 2, 100)]"
        "\<lambda>es. [- 1, 2, 1]", OF fake_facts(2)]
  obtain ms mfull where ms:
    "getDisjointPairs (\<lambda>es. [- 1, 2, 1]) (\<lambda>i. if i = 0 then 0 else 100) fake_layout [] = Inr ms"
    "mfull = matched_pairs fake_layout [- 1, 2, 1]"
    "ms = filter (\<lambda>p. \<not> is_fake p) mfull"
    "simple_layout fake_layout \<and> maxWeightMatching_spec [(0, 1, 0), (1, 2, 100)] [- 1, 2, 1] \<longrightarrow>
     disjoint_pairs fake_layout mfull
       \<and> (\<forall>ns. disjoint_pairs fake_layout ns \<longrightarrow>
             length ns \<le> length ms + length (filter is_fake mfull))"
    by blast
  have mf: "mfull = [''fake1'']" using ms(2) fake_facts(3) by simp
  have f1: "getDisjointPairs (\<lambda>es. [- 1, 2, 1]) (\<lambda>i. if i = 0 then 0 else 100) fake_layout []
       = Inr (filter (\<lambda>p. \<not> is_fake p) [''fake1''])"
    using ms(1,3) mf by simp
  have f2: "disjoint_pairs fake_layout [''fake1'']"
    using ms(4) fake_facts(1) fake_spec mf by blast
  have "length [''A''] \<le> length ms + length (filter is_fake mfull)"
    using ms(4) fake_facts(1,5) fake_spec by blast
  then have f3: "length [''A''] \<le> length (filter (\<lambda>p. \<not> is_fake p) [''fake1''])
         + length (filter is_fake [''fake1''])"
    using ms(3) mf by simp
  show ?thesis using names t1 eq t2 f1 f2 f3 by simp
qed

text \<open>
  The claim as stated fails on two layouts. Where two pairs join the same two qubits,
  both names are returned and a qubit appears in two returned pairs. Where a fake pair
  outweighs the real pair it shares a qubit with, the matching takes the fake pair and
  the returned list is empty, although one real pair alone is a larger disjoint set.
\<close>

theorem getDisjointPairs_counterexample:
  "layout_edges (\<lambda>i. 5) parallel_layout [] = Inr [(0, 1, 5), (0, 1, 5)]
   \<and> maxWeightMatching_spec [(0, 1, 5), (0, 1, 5)] [1, 0]
   \<and> getDisjointPairs (\<lambda>es. [1, 0]) (\<lambda>i. 5) parallel_layout [] = Inr [''A'', ''B'']
   \<and> \<not> disjoint_pairs parallel_layout [''A'', ''B'']
   \<and> layout_edges (\<lambda>i. if i = 0 then 0 else 100) fake_layout [] = Inr [(0, 1, 0), (1, 2, 100)]
   \<and> maxWeightMatching_spec [(0, 1, 0), (1, 2, 100)] [- 1, 2, 1]
   \<and> getDisjointPairs (\<lambda>es. [- 1, 2, 1]) (\<lambda>i. if i = 0 then 0 else 100) fake_layout [] = Inr []
   \<and> disjoint_pairs fake_layout [''A''] \<and> \<not> is_fake ''A''
   \<and> length ([] :: string list) < length [''A'']"
proof -
  have e1: "layout_edges (\<lambda>i. 5) parallel_layout [] = Inr [(0, 1, 5), (0, 1, 5)]"
    by (simp add: layout_edges_def dict_keys_def dict_store_def dict_item_def list_item_def
        parallel_layout_def)
  have m1: "matching_names parallel_layout [1, 0] = [''A'', ''B'']"
    by (simp add: matching_names_def dict_keys_def dict_item_def is_fake_def upt_rec
        parallel_layout_def)
  have n1: "getDisjointPairs (\<lambda>es. [1, 0]) (\<lambda>i. 5) parallel_layout [] = Inr [''A'', ''B'']"
    by (simp add: getDisjointPairs_def e1 m1)
  have d1: "\<not> disjoint_pairs parallel_layout [''A'', ''B'']"
    by (simp add: disjoint_pairs_def pair_qubits_def parallel_layout_def)
  have e2: "layout_edges (\<lambda>i. if i = 0 then 0 else 100) fake_layout []
      = Inr [(0, 1, 0), (1, 2, 100)]"
    by (simp add: layout_edges_def dict_keys_def dict_store_def dict_item_def list_item_def
        fake_layout_def)
  have m2: "matching_names fake_layout [- 1, 2, 1] = []"
    by (simp add: matching_names_def dict_keys_def dict_item_def is_fake_def upt_rec
        fake_layout_def)
  have n2: "getDisjointPairs (\<lambda>es. [- 1, 2, 1]) (\<lambda>i. if i = 0 then 0 else 100) fake_layout []
      = Inr []"
    by (simp add: getDisjointPairs_def e2 m2)
  have d2: "disjoint_pairs fake_layout [''A'']"
    by (simp add: disjoint_pairs_def pair_qubits_def fake_layout_def dict_keys_def)
  have f2: "\<not> is_fake ''A''" by (simp add: is_fake_def)
  show ?thesis using e1 parallel_spec n1 d1 e2 fake_spec n2 d2 f2 by simp
qed

end
